theory Spec2Isabelle
  imports Complex_Main
begin

section \<open>JavaScript strings and regular expressions\<close>

text \<open>
  A JavaScript string is a sequence of UTF-16 code units. The patterns of
  \<^verbatim>\<open>src/lib/metrology.ts\<close> are written without the \<^verbatim>\<open>u\<close> flag, so they
  match code unit by code unit. A code unit is an integer from 0 to 65535; the
  functions below are defined on every integer. ASCII text is written
  \<open>asc ''...''\<close>; the rupee sign U+20B9 is the code unit 8377.
\<close>

type_synonym cu = int
type_synonym jstring = "cu list"

definition asc :: "string \<Rightarrow> jstring" where
  "asc s = map of_char s"

definition rupee :: cu where
  "rupee = 8377"

definition is_digit :: "cu \<Rightarrow> bool" where
  "is_digit x \<longleftrightarrow> 48 \<le> x \<and> x \<le> 57"

text \<open>LineTerminator: LF, CR, U+2028, U+2029.\<close>

definition is_line_terminator :: "cu \<Rightarrow> bool" where
  "is_line_terminator x \<longleftrightarrow> x = 10 \<or> x = 13 \<or> x = 8232 \<or> x = 8233"

text \<open>
  WhiteSpace and LineTerminator, the set of \<^verbatim>\<open>\s\<close> and of \<^verbatim>\<open>trim()\<close>:
  TAB, LF, VT, FF, CR, SP, U+00A0, U+1680, U+2000..U+200A, U+2028, U+2029, U+202F,
  U+205F, U+3000, U+FEFF.
\<close>

definition is_space :: "cu \<Rightarrow> bool" where
  "is_space x \<longleftrightarrow> (9 \<le> x \<and> x \<le> 13) \<or> x = 32 \<or> x = 160 \<or> x = 5760 \<or> (8192 \<le> x \<and> x \<le> 8202)
     \<or> x = 8232 \<or> x = 8233 \<or> x = 8239 \<or> x = 8287 \<or> x = 12288 \<or> x = 65279"

text \<open>The word characters of \<^verbatim>\<open>\b\<close>: \<^verbatim>\<open>[A-Za-z0-9_]\<close>.\<close>

definition is_word :: "cu \<Rightarrow> bool" where
  "is_word x \<longleftrightarrow> (65 \<le> x \<and> x \<le> 90) \<or> (97 \<le> x \<and> x \<le> 122) \<or> (48 \<le> x \<and> x \<le> 57) \<or> x = 95"

text \<open>
  Canonicalize of the \<^verbatim>\<open>i\<close> flag (no \<^verbatim>\<open>u\<close> flag): a code unit is compared by its
  upper case, and a code unit from 128 on is never mapped below 128. Every cased
  character of the patterns below is an ASCII letter, so only the mapping of
  \<^verbatim>\<open>a-z\<close> can decide a comparison, and only that part is written out.
\<close>

definition canonicalize :: "cu \<Rightarrow> cu" where
  "canonicalize x = (if 97 \<le> x \<and> x \<le> 122 then x - 32 else x)"

text \<open>
  \<^verbatim>\<open>toLowerCase()\<close> on the ASCII range. The extractor applies it to the captured
  unit token only, which consists of ASCII letters (lemma \<open>qty_unit_token\<close>).
\<close>

definition toLowerCase :: "jstring \<Rightarrow> jstring" where
  "toLowerCase s = map (\<lambda>x. if 65 \<le> x \<and> x \<le> 90 then x + 32 else x) s"

text \<open>
  Character classes: a literal, \<^verbatim>\<open>\d\<close>, \<^verbatim>\<open>\s\<close>, \<^verbatim>\<open>.\<close>, a range \<^verbatim>\<open>a-b\<close> (the
  patterns have ranges of digits only), and a bracket \<^verbatim>\<open>[...]\<close> of these.
\<close>

datatype cls = Lit cu | Digit | Space | Dot | Range cu cu | OneOf "cls list"

fun cls_match :: "bool \<Rightarrow> cls \<Rightarrow> cu \<Rightarrow> bool" where
  "cls_match ci (Lit c) x = (if ci then canonicalize x = canonicalize c else x = c)"
| "cls_match ci Digit x = is_digit x"
| "cls_match ci Space x = is_space x"
| "cls_match ci Dot x = (\<not> is_line_terminator x)"
| "cls_match ci (Range a b) x = (a \<le> x \<and> x \<le> b)"
| "cls_match ci (OneOf cs) x = list_ex (\<lambda>c. cls_match ci c x) cs"

text \<open>
  The patterns: a quantifier \<open>Rep c lo hi greedy\<close> repeats one character class
  \<open>lo\<close> to \<open>hi\<close> times (\<open>None\<close>: no upper bound), greedy or lazy; \<open>Opt\<close> is a
  greedy \<^verbatim>\<open>?\<close> on a group; \<open>Grp n\<close> is the \<open>n\<close>-th capturing group; \<open>WordB\<close>,
  \<open>Bol\<close>, \<open>Eol\<close> are \<^verbatim>\<open>\b\<close>, \<^verbatim>\<open>^\<close>, \<^verbatim>\<open>$\<close>.
\<close>

datatype regex =
    Eps
  | Atom cls
  | Seq regex regex
  | Alt regex regex
  | Opt regex
  | Rep cls nat "nat option" bool
  | Grp nat regex
  | WordB
  | Bol
  | Eol

type_synonym caps = "(nat \<times> jstring) list"

fun dec :: "nat option \<Rightarrow> nat option" where
  "dec None = None"
| "dec (Some n) = Some (n - 1)"

text \<open>
  The backtracking matcher, in continuation-passing style as in the ECMAScript
  specification: a matcher gets the previous code unit (for \<^verbatim>\<open>\b\<close> and
  \<^verbatim>\<open>^\<close>), the rest of the input, the captures, and a continuation that matches
  what follows; \<open>None\<close> is failure, and an alternative is tried only after the
  one before it has failed together with its continuation.
\<close>

fun rep :: "(cu \<Rightarrow> bool) \<Rightarrow> nat \<Rightarrow> nat option \<Rightarrow> bool \<Rightarrow> cu option \<Rightarrow> jstring
    \<Rightarrow> (cu option \<Rightarrow> jstring \<Rightarrow> 'r option) \<Rightarrow> 'r option" where
  "rep f lo hi g p [] k = (if lo = 0 then k p [] else None)"
| "rep f lo hi g p (x # xs) k =
     (if 0 < lo then (if f x then rep f (lo - 1) (dec hi) g (Some x) xs k else None)
      else if hi = Some 0 \<or> \<not> f x then k p (x # xs)
      else if g then
        (case rep f 0 (dec hi) g (Some x) xs k of
           Some r \<Rightarrow> Some r
         | None \<Rightarrow> k p (x # xs))
      else
        (case k p (x # xs) of
           Some r \<Rightarrow> Some r
         | None \<Rightarrow> rep f 0 (dec hi) g (Some x) xs k))"

definition word_opt :: "cu option \<Rightarrow> bool" where
  "word_opt p = (case p of None \<Rightarrow> False | Some x \<Rightarrow> is_word x)"

definition next_cu :: "jstring \<Rightarrow> cu option" where
  "next_cu s = (case s of [] \<Rightarrow> None | x # _ \<Rightarrow> Some x)"

fun m :: "bool \<Rightarrow> regex \<Rightarrow> cu option \<Rightarrow> jstring \<Rightarrow> caps
    \<Rightarrow> (cu option \<Rightarrow> jstring \<Rightarrow> caps \<Rightarrow> 'r option) \<Rightarrow> 'r option" where
  "m ci Eps p s cs k = k p s cs"
| "m ci (Atom c) p s cs k =
     (case s of [] \<Rightarrow> None | x # xs \<Rightarrow> if cls_match ci c x then k (Some x) xs cs else None)"
| "m ci (Seq a b) p s cs k = m ci a p s cs (\<lambda>p' s' cs'. m ci b p' s' cs' k)"
| "m ci (Alt a b) p s cs k =
     (case m ci a p s cs k of Some r \<Rightarrow> Some r | None \<Rightarrow> m ci b p s cs k)"
| "m ci (Opt a) p s cs k =
     (case m ci a p s cs k of Some r \<Rightarrow> Some r | None \<Rightarrow> k p s cs)"
| "m ci (Rep c lo hi g) p s cs k = rep (cls_match ci c) lo hi g p s (\<lambda>p' s'. k p' s' cs)"
| "m ci (Grp n a) p s cs k =
     m ci a p s cs (\<lambda>p' s' cs'. k p' s' ((n, take (length s - length s') s) # cs'))"
| "m ci WordB p s cs k = (if word_opt p \<noteq> word_opt (next_cu s) then k p s cs else None)"
| "m ci Bol p s cs k = (if p = None then k p s cs else None)"
| "m ci Eol p s cs k = (if s = [] then k p s cs else None)"

text \<open>A regular expression literal: the pattern and its \<^verbatim>\<open>i\<close> flag.\<close>

record regexp =
  pattern :: regex
  ignoreCase :: bool

text \<open>
  The result of a successful match: the text before the match, the matched text
  (\<^verbatim>\<open>m[0]\<close>), the text after it, and the captures.
\<close>

record jsmatch =
  before :: jstring
  matched :: jstring
  after :: jstring
  captures :: caps

text \<open>
  \<^verbatim>\<open>RegExp.prototype.exec\<close> without the \<^verbatim>\<open>g\<close> flag: the match is tried at index
  0, 1, ..., up to the length of the string, and the first index with a match wins.
  \<open>pre\<close> is the text already passed, reversed.
\<close>

definition match_at :: "regexp \<Rightarrow> jstring \<Rightarrow> jstring \<Rightarrow> jsmatch option" where
  "match_at re pre s =
     (case m (ignoreCase re) (pattern re) (next_cu pre) s [] (\<lambda>p' s' cs'. Some (s', cs')) of
        Some (s', cs') \<Rightarrow>
          Some \<lparr>before = rev pre, matched = take (length s - length s') s, after = s', captures = cs'\<rparr>
      | None \<Rightarrow> None)"

fun search :: "regexp \<Rightarrow> jstring \<Rightarrow> jstring \<Rightarrow> jsmatch option" where
  "search re pre [] = match_at re pre []"
| "search re pre (x # xs) =
     (case match_at re pre (x # xs) of
        Some mt \<Rightarrow> Some mt
      | None \<Rightarrow> search re (x # pre) xs)"

definition js_match :: "jstring \<Rightarrow> regexp \<Rightarrow> jsmatch option" where
  "js_match s re = search re [] s"

definition js_test :: "regexp \<Rightarrow> jstring \<Rightarrow> bool" where
  "js_test re s \<longleftrightarrow> js_match s re \<noteq> None"

text \<open>\<^verbatim>\<open>s.replace(re, "")\<close> without the \<^verbatim>\<open>g\<close> flag removes the first match.\<close>

definition js_replace_empty :: "jstring \<Rightarrow> regexp \<Rightarrow> jstring" where
  "js_replace_empty s re = (case js_match s re of None \<Rightarrow> s | Some mt \<Rightarrow> before mt @ after mt)"

text \<open>\<^verbatim>\<open>s.replace(/c/g, t)\<close> for a one-character pattern \<open>c\<close>.\<close>

definition js_replace_all :: "jstring \<Rightarrow> cu \<Rightarrow> jstring \<Rightarrow> jstring" where
  "js_replace_all s c t = concat (map (\<lambda>x. if x = c then t else [x]) s)"

text \<open>\<^verbatim>\<open>s.includes(t)\<close>: \<open>t\<close> occurs in \<open>s\<close> at some index.\<close>

fun js_includes :: "jstring \<Rightarrow> jstring \<Rightarrow> bool" where
  "js_includes [] t = (t = [])"
| "js_includes (x # xs) t = (take (length t) (x # xs) = t \<or> js_includes xs t)"

definition trim :: "jstring \<Rightarrow> jstring" where
  "trim s = rev (dropWhile is_space (rev (dropWhile is_space s)))"

text \<open>
  \<^verbatim>\<open>s.split(/\r?\n/)\<close>: at each index the separator matches a line feed, or a
  carriage return directly followed by a line feed; the pieces between the matches
  are returned, the empty ones too. \<open>cur\<close> is the piece being read, reversed.
\<close>

fun split_lines :: "jstring \<Rightarrow> jstring \<Rightarrow> jstring list" where
  "split_lines cur [] = [rev cur]"
| "split_lines cur (x # xs) =
     (if x = 10 then rev cur # split_lines [] xs
      else if x = 13 \<and> next_cu xs = Some 10 then rev cur # split_lines [] (tl xs)
      else split_lines (x # cur) xs)"

text \<open>
  \<^verbatim>\<open>m[i]\<close> on the result of \<^verbatim>\<open>match\<close>: reading an index of \<^verbatim>\<open>null\<close> throws a
  TypeError; on a match, index 0 is the matched text and index \<open>i\<close> the \<open>i\<close>-th
  capture, \<^verbatim>\<open>undefined\<close> when its group took no part in the match.
\<close>

datatype js_error = TypeError

definition at_index :: "jsmatch option \<Rightarrow> nat \<Rightarrow> js_error + jstring option" where
  "at_index mo i =
     (case mo of
        None \<Rightarrow> Inl TypeError
      | Some mt \<Rightarrow> Inr (if i = 0 then Some (matched mt) else map_of (captures mt) i))"

definition bindE :: "'e + 'a \<Rightarrow> ('a \<Rightarrow> 'e + 'b) \<Rightarrow> 'e + 'b" where
  "bindE x f = (case x of Inl e \<Rightarrow> Inl e | Inr v \<Rightarrow> f v)"

text \<open>A value in a template literal or as the argument of \<^verbatim>\<open>test\<close>: \<^verbatim>\<open>undefined\<close> is
  turned into the string "undefined".\<close>

definition to_string :: "jstring option \<Rightarrow> jstring" where
  "to_string v = (case v of None \<Rightarrow> asc ''undefined'' | Some s \<Rightarrow> s)"

text \<open>Truthiness of a string or \<^verbatim>\<open>undefined\<close>: only a non-empty string is truthy.\<close>

definition truthy :: "jstring option \<Rightarrow> bool" where
  "truthy v = (case v of None \<Rightarrow> False | Some s \<Rightarrow> s \<noteq> [])"

definition js_or :: "jstring option \<Rightarrow> jstring option \<Rightarrow> jstring option" where
  "js_or a b = (if truthy a then a else b)"

text \<open>\<^verbatim>\<open>xs[i]\<close> is \<^verbatim>\<open>undefined\<close> out of range; \<^verbatim>\<open>xs.indexOf(x)\<close> is \<open>-1\<close> when \<open>x\<close>
  does not occur.\<close>

definition js_nth :: "'a list \<Rightarrow> int \<Rightarrow> 'a option" where
  "js_nth xs i = (if 0 \<le> i \<and> i < int (length xs) then Some (xs ! nat i) else None)"

fun indexOf :: "'a list \<Rightarrow> 'a \<Rightarrow> int" where
  "indexOf [] y = -1"
| "indexOf (x # xs) y = (if x = y then 0 else (let i = indexOf xs y in if i < 0 then -1 else i + 1))"

definition ch :: "char \<Rightarrow> cu" where
  "ch c = of_char c"

definition seqs :: "regex list \<Rightarrow> regex" where
  "seqs rs = foldr Seq rs Eps"

definition str :: "string \<Rightarrow> regex" where
  "str s = seqs (map (\<lambda>c. Atom (Lit (ch c))) s)"

fun alts :: "regex list \<Rightarrow> regex" where
  "alts [] = Atom (OneOf [])"
| "alts [r] = r"
| "alts (r # rs) = Alt r (alts rs)"

section \<open>The field extractor and the rule evaluator (src/lib/metrology.ts)\<close>

record OCRExtractedFields =
  generic_name :: "jstring option"
  mrp :: "jstring option"
  net_quantity :: "jstring option"
  unit :: "jstring option"
  manufacturer_name :: "jstring option"
  manufacturer_address :: "jstring option"
  month_year :: "jstring option"
  consumer_care :: "jstring option"
  raw_text :: "jstring option"

text \<open>
  \<^verbatim>\<open>UNIT_MAP\<close>. The extractor looks up the lower-cased unit token only, so the
  properties an object literal inherits from its prototype are never read.
\<close>

definition UNIT_MAP :: "jstring \<rightharpoonup> jstring" where
  "UNIT_MAP = map_of
     [(asc ''g'', asc ''g''), (asc ''gram'', asc ''g''), (asc ''grams'', asc ''g''),
      (asc ''kg'', asc ''kg''), (asc ''kilogram'', asc ''kg''), (asc ''kilograms'', asc ''kg''),
      (asc ''ml'', asc ''ml''),
      (asc ''l'', asc ''L''), (asc ''lt'', asc ''L''), (asc ''liter'', asc ''L''),
      (asc ''litre'', asc ''L''), (asc ''liters'', asc ''L''), (asc ''litres'', asc ''L''),
      (asc ''pcs'', asc ''pcs''), (asc ''piece'', asc ''pcs''), (asc ''pieces'', asc ''pcs'')]"

text \<open>\<^verbatim>\<open>/(?:R|rs\.?\s*)(\d{1,5}(?:[\.,]\d{2})?)/i\<close>, where \<^verbatim>\<open>R\<close> stands for the
  rupee sign U+20B9 of the source.\<close>

definition mrp_prefix :: regex where
  "mrp_prefix = alts [Atom (Lit rupee),
                      seqs [str ''rs'', Rep (Lit (ch CHR ''.'')) 0 (Some 1) True, Rep Space 0 None True]]"

definition mrp_amount :: regex where
  "mrp_amount = seqs [Rep Digit 1 (Some 5) True,
                      Opt (seqs [Atom (OneOf [Lit (ch CHR ''.''), Lit (ch CHR '','')]),
                                 Rep Digit 2 (Some 2) True])]"

definition mrp_re :: regexp where
  "mrp_re = \<lparr>pattern = seqs [mrp_prefix, Grp 1 mrp_amount], ignoreCase = True\<rparr>"

text \<open>\<^verbatim>\<open>/(\d{1,4}(?:[\.,]\d{1,2})?)\s*(kg|gram|grams|g|ml|l|lt|liter|litre|liters|litres|pcs|piece|pieces)\b/i\<close>\<close>

definition unit_tokens :: "string list" where
  "unit_tokens = [''kg'', ''gram'', ''grams'', ''g'', ''ml'', ''l'', ''lt'', ''liter'', ''litre'',
                  ''liters'', ''litres'', ''pcs'', ''piece'', ''pieces'']"

definition qty_number :: regex where
  "qty_number = seqs [Rep Digit 1 (Some 4) True,
                      Opt (seqs [Atom (OneOf [Lit (ch CHR ''.''), Lit (ch CHR '','')]),
                                 Rep Digit 1 (Some 2) True])]"

definition qty_unit :: regex where
  "qty_unit = alts (map str unit_tokens)"

definition qty_re :: regexp where
  "qty_re = \<lparr>pattern = seqs [Grp 1 qty_number, Rep Space 0 None True, Grp 2 qty_unit, WordB],
     ignoreCase = True\<rparr>"

text \<open>\<^verbatim>\<open>/\b(0[1-9]|1[0-2])\s*[\/\.\-]\s*(20\d{2}|19\d{2})\b/\<close>\<close>

definition my_month :: regex where
  "my_month = alts [seqs [Atom (Lit (ch CHR ''0'')), Atom (Range (ch CHR ''1'') (ch CHR ''9''))],
                    seqs [Atom (Lit (ch CHR ''1'')), Atom (Range (ch CHR ''0'') (ch CHR ''2''))]]"

definition my_year :: regex where
  "my_year = alts [seqs [str ''20'', Rep Digit 2 (Some 2) True],
                   seqs [str ''19'', Rep Digit 2 (Some 2) True]]"

definition my_re :: regexp where
  "my_re = \<lparr>pattern = seqs
      [WordB, Grp 1 my_month, Rep Space 0 None True,
       Atom (OneOf [Lit (ch CHR ''/''), Lit (ch CHR ''.''), Lit (ch CHR ''-'')]),
       Rep Space 0 None True, Grp 2 my_year, WordB],
     ignoreCase = False\<rparr>"

text \<open>\<^verbatim>\<open>/manufact|mfg\.?\s*by|packer|importer/i\<close>\<close>

definition manuf_re :: regexp where
  "manuf_re = \<lparr>pattern = alts
      [str ''manufact'',
       seqs [str ''mfg'', Rep (Lit (ch CHR ''.'')) 0 (Some 1) True, Rep Space 0 None True, str ''by''],
       str ''packer'',
       str ''importer''],
     ignoreCase = True\<rparr>"

text \<open>\<^verbatim>\<open>/.*?:\s*/i\<close>\<close>

definition label_re :: regexp where
  "label_re = \<lparr>pattern = seqs [Rep Dot 0 None False, Atom (Lit (ch CHR '':'')), Rep Space 0 None True],
     ignoreCase = True\<rparr>"

text \<open>\<^verbatim>\<open>/[0-9,]/\<close>\<close>

definition addr_re :: regexp where
  "addr_re = \<lparr>pattern = Atom (OneOf [Range (ch CHR ''0'') (ch CHR ''9''), Lit (ch CHR '','')]),
     ignoreCase = False\<rparr>"

text \<open>\<^verbatim>\<open>/(1[89]00[-\s]?\d{3}[-\s]?\d{3,4}|\b\d{10}\b)/\<close>\<close>

definition care_number :: regex where
  "care_number = alts
      [seqs [Atom (Lit (ch CHR ''1'')), Atom (OneOf [Lit (ch CHR ''8''), Lit (ch CHR ''9'')]), str ''00'',
             Rep (OneOf [Lit (ch CHR ''-''), Space]) 0 (Some 1) True,
             Rep Digit 3 (Some 3) True,
             Rep (OneOf [Lit (ch CHR ''-''), Space]) 0 (Some 1) True,
             Rep Digit 3 (Some 4) True],
       seqs [WordB, Rep Digit 10 (Some 10) True, WordB]]"

definition care_re :: regexp where
  "care_re = \<lparr>pattern = Grp 1 care_number, ignoreCase = False\<rparr>"

text \<open>\<^verbatim>\<open>/name\s*:/i\<close>\<close>

definition name_re :: regexp where
  "name_re = \<lparr>pattern = seqs [str ''name'', Rep Space 0 None True, Atom (Lit (ch CHR '':''))],
     ignoreCase = True\<rparr>"

text \<open>
  The body of \<^verbatim>\<open>parseFieldsFromRawText\<close>, block by block. \<open>text\<close> is the input
  after \<^verbatim>\<open>(raw || "").replace(/\u20B9/g, R)\<close>, \<open>lines\<close> its trimmed non-empty
  lines. The constant \<^verbatim>\<open>lower\<close> of the source is never read and is left out.
\<close>

definition normalize_text :: "jstring \<Rightarrow> jstring" where
  "normalize_text raw = js_replace_all (if raw = [] then [] else raw) rupee [rupee]"

definition lines_of :: "jstring \<Rightarrow> jstring list" where
  "lines_of text = filter (\<lambda>l. l \<noteq> []) (map trim (split_lines [] text))"

text \<open>Quantity and unit: \<open>(net_quantity, unit)\<close>.\<close>

definition extract_qty :: "jstring \<Rightarrow> js_error + (jstring option \<times> jstring option)" where
  "extract_qty text =
     (let qtyMatch = js_match text qty_re in
      if qtyMatch \<noteq> None then
        bindE (at_index qtyMatch 1) (\<lambda>g1.
        bindE (at_index qtyMatch 2) (\<lambda>g2.
          let net_quantity = map_option (\<lambda>q. js_replace_all q (ch CHR '','') []) g1;
              uRaw = map_option toLowerCase g2;
              unit = js_or (case uRaw of None \<Rightarrow> None | Some u \<Rightarrow> UNIT_MAP u) uRaw
          in Inr (net_quantity, unit)))
      else Inr (None, None))"

text \<open>Manufacturer name and address: \<open>(manufacturer_name, manufacturer_address)\<close>.\<close>

definition extract_manufacturer :: "jstring list \<Rightarrow> jstring option \<times> jstring option" where
  "extract_manufacturer lines =
     (let manufLine = find (js_test manuf_re) lines;
          manufacturer_name = map_option (\<lambda>l. js_replace_empty l label_re) manufLine;
          idx = (case manufLine of None \<Rightarrow> -1 | Some l \<Rightarrow> if l \<noteq> [] then indexOf lines l else -1);
          manufacturer_address =
            (if idx \<ge> 0 \<and> idx + 1 < int (length lines)
                \<and> js_test addr_re (to_string (js_nth lines (idx + 1)))
             then js_nth lines (idx + 1) else None)
      in (manufacturer_name, manufacturer_address))"

definition extract_generic_name :: "jstring list \<Rightarrow> jstring option" where
  "extract_generic_name lines =
     (let nameLine = find (js_test name_re) lines in
      if truthy nameLine then map_option (\<lambda>l. trim (js_replace_empty l label_re)) nameLine else None)"

definition extract_mrp :: "jstring \<Rightarrow> js_error + jstring option" where
  "extract_mrp text =
     (let mrpMatch = js_match text mrp_re in
      if mrpMatch \<noteq> None then
        (if js_includes text [rupee]
         then bindE (at_index mrpMatch 1) (\<lambda>g1. Inr (Some (rupee # to_string g1)))
         else at_index mrpMatch 0)
      else Inr None)"

definition extract_month_year :: "jstring \<Rightarrow> js_error + jstring option" where
  "extract_month_year text =
     (let myMatch = js_match text my_re in
      if myMatch \<noteq> None then
        bindE (at_index myMatch 1) (\<lambda>g1.
        bindE (at_index myMatch 2) (\<lambda>g2.
          Inr (Some (to_string g1 @ [ch CHR ''/''] @ to_string g2))))
      else Inr None)"

definition extract_consumer_care :: "jstring \<Rightarrow> js_error + jstring option" where
  "extract_consumer_care text =
     (let careMatch = js_match text care_re in
      if careMatch \<noteq> None then at_index careMatch 0 else Inr None)"

definition parseFieldsFromRawText :: "jstring \<Rightarrow> js_error + OCRExtractedFields" where
  "parseFieldsFromRawText raw =
     (let text = normalize_text raw;
          lines = lines_of text
      in bindE (extract_qty text) (\<lambda>(net_quantity', unit').
         let (manufacturer_name', manufacturer_address') = extract_manufacturer lines;
             generic_name' = extract_generic_name lines
         in bindE (extract_mrp text) (\<lambda>mrp'.
            bindE (extract_month_year text) (\<lambda>month_year'.
            bindE (extract_consumer_care text) (\<lambda>consumer_care'.
              Inr \<lparr>generic_name = generic_name',
                   mrp = mrp',
                   net_quantity = net_quantity',
                   unit = unit',
                   manufacturer_name = manufacturer_name',
                   manufacturer_address = manufacturer_address',
                   month_year = month_year',
                   consumer_care = consumer_care',
                   raw_text = Some raw\<rparr>)))))"

subsection \<open>validateLocally\<close>

record RuleResult =
  rule_key :: string
  passed :: bool
  confidence :: rat

record SummaryResult =
  compliant :: bool
  violations :: "string list"
  violation_count :: nat

record ValidateLegalMetrologyResponse =
  rules :: "RuleResult list"
  summary :: SummaryResult

text \<open>\<^verbatim>\<open>/^\d+(?:\.\d+)?$/\<close>, \<^verbatim>\<open>/\d/\<close> and \<^verbatim>\<open>/mrp|price|R|rs\.?/i\<close> (\<^verbatim>\<open>R\<close> the rupee sign).\<close>

definition numeric_re :: regexp where
  "numeric_re = \<lparr>pattern = seqs
      [Bol, Rep Digit 1 None True,
       Opt (seqs [Atom (Lit (ch CHR ''.'')), Rep Digit 1 None True]),
       Eol],
     ignoreCase = False\<rparr>"

definition digit_re :: regexp where
  "digit_re = \<lparr>pattern = Atom Digit, ignoreCase = False\<rparr>"

definition prominent_re :: regexp where
  "prominent_re = \<lparr>pattern = alts
      [str ''mrp'', str ''price'', Atom (Lit rupee),
       seqs [str ''rs'', Rep (Lit (ch CHR ''.'')) 0 (Some 1) True]],
     ignoreCase = True\<rparr>"

text \<open>\<^verbatim>\<open>add\<close> pushes one result on the list \<^verbatim>\<open>rules\<close>.\<close>

definition add :: "RuleResult list \<Rightarrow> string \<Rightarrow> bool \<Rightarrow> RuleResult list" where
  "add rs key ok = rs @ [\<lparr>rule_key = key, passed = ok, confidence = (if ok then 95 / 100 else 7 / 10)\<rparr>]"

text \<open>\<^verbatim>\<open>!!v && re.test(v)\<close>\<close>

definition truthy_and_test :: "jstring option \<Rightarrow> regexp \<Rightarrow> bool" where
  "truthy_and_test v re \<longleftrightarrow> truthy v \<and> js_test re (to_string v)"

definition validateLocally :: "OCRExtractedFields \<Rightarrow> ValidateLegalMetrologyResponse" where
  "validateLocally ex =
     (let rules0 = [];
          rules1 = add rules0 ''manufacturer_address_present''
                     (truthy (js_or (manufacturer_name ex) (manufacturer_address ex)));
          rules2 = add rules1 ''generic_name_present'' (truthy (generic_name ex));
          rules3 = add rules2 ''net_quantity_present'' (truthy (net_quantity ex));
          rules4 = add rules3 ''net_quantity_numeric'' (truthy_and_test (net_quantity ex) numeric_re);
          rules5 = add rules4 ''net_quantity_unit_valid''
                     (truthy (unit ex) \<and>
                      List.member (map (\<lambda>u. Some (asc u)) [''g'', ''kg'', ''ml'', ''L'', ''cm'', ''m'', ''pcs'']) (unit ex));
          rules6 = add rules5 ''month_year_present'' (truthy (month_year ex));
          rules7 = add rules6 ''mrp_present'' (truthy (mrp ex));
          rules8 = add rules7 ''mrp_format_valid'' (truthy_and_test (mrp ex) digit_re);
          rules9 = add rules8 ''mrp_prominent_in_text'' (truthy_and_test (raw_text ex) prominent_re);
          rules10 = add rules9 ''consumer_care_present'' (truthy (consumer_care ex));
          failed = map rule_key (filter (\<lambda>r. \<not> passed r) rules10)
      in \<lparr>rules = rules10,
          summary = \<lparr>compliant = (length failed = 0), violations = failed, violation_count = length failed\<rparr>\<rparr>)"

text \<open>The ten rule keys, in the order \<^verbatim>\<open>validateLocally\<close> evaluates them.\<close>

definition rule_order :: "string list" where
  "rule_order = [''manufacturer_address_present'', ''generic_name_present'', ''net_quantity_present'',
     ''net_quantity_numeric'', ''net_quantity_unit_valid'', ''month_year_present'', ''mrp_present'',
     ''mrp_format_valid'', ''mrp_prominent_in_text'', ''consumer_care_present'']"

definition no_fields :: OCRExtractedFields where
  "no_fields = \<lparr>generic_name = None, mrp = None, net_quantity = None, unit = None,
     manufacturer_name = None, manufacturer_address = None, month_year = None,
     consumer_care = None, raw_text = None\<rparr>"

text \<open>The label text of the worked example of the specification.\<close>

definition example_label :: jstring where
  "example_label = asc ''MRP '' @ [rupee]
     @ asc ''199.00 Net Qty: 250 g Mfg by: Acme Foods Ltd 12/2025 Consumer Care: 1800-123-4567''"

section \<open>Image similarity (src/lib/cv.ts and src/lib/cv_google.ts)\<close>

text \<open>
  Numbers. A JavaScript number is an IEEE double, and a comparison of two doubles
  is the comparison of their values, so a number is modelled by an exact rational.
  A double written as a decimal (a literal such as \<^verbatim>\<open>0.85\<close>, the result of
  \<^verbatim>\<open>Number(x.toFixed(2))\<close>) is modelled by that decimal: rounding a decimal to the
  nearest double is monotone and keeps decimals of two to four digits apart, so
  comparisons between such numbers are the comparisons of the decimals. The
  operations that round (division, multiplication, addition, subtraction and
  square root of numbers that are not small integers) are not computed: they are
  the fields of the parameter \<open>rt\<close>, as is the Unicode \<^verbatim>\<open>toLowerCase\<close> of a label;
  the runtime \<open>ieee\<close> below sets them to the operations of doubles.
  Sums and differences of small integers and \<open>k / 64\<close> for \<open>k \<le> 64\<close> are exact
  in a double and are computed. Strategy A compares such a number, \<open>1 - k / 64\<close>,
  with the literals \<^verbatim>\<open>0.85\<close> and \<^verbatim>\<open>0.7\<close>: by lemma \<open>thresholds_on_64ths\<close> the
  comparison with the doubles nearest to them is the comparison with the decimals.
\<close>

record runtime =
  fl_add :: "rat \<Rightarrow> rat \<Rightarrow> rat"
  fl_sub :: "rat \<Rightarrow> rat \<Rightarrow> rat"
  fl_mul :: "rat \<Rightarrow> rat \<Rightarrow> rat"
  fl_div :: "rat \<Rightarrow> rat \<Rightarrow> rat"
  fl_sqrt :: "rat \<Rightarrow> rat"
  to_lower :: "jstring \<Rightarrow> jstring"

text \<open>
  \<^verbatim>\<open>Number(x.toFixed(2))\<close>: \<^verbatim>\<open>toFixed\<close> prints \<open>n / 100\<close> for the integer \<open>n\<close>
  nearest to \<open>100 x\<close> (of two such integers the larger one), with the sign of
  \<open>x\<close> set aside first.
\<close>

definition toFixed2 :: "rat \<Rightarrow> rat" where
  "toFixed2 x = (if x < 0 then - (of_int \<lfloor>100 * (- x) + 1 / 2\<rfloor> / 100)
                 else of_int \<lfloor>100 * x + 1 / 2\<rfloor> / 100)"

record SimilarityResult =
  similarity :: rat
  flags :: "(string \<times> bool) list"
  verdict :: string

subsection \<open>Strategy A: average hash\<close>

unbundle bit_operations_syntax

text \<open>
  The loop of \<^verbatim>\<open>hammingDistanceHashBigInt\<close> on the BigInt \<open>x\<close>; it does not end on a
  negative \<open>x\<close>, so the result is an option.
\<close>

partial_function (option) hamming_loop :: "int \<Rightarrow> nat \<Rightarrow> nat option" where
  "hamming_loop x count = (if x \<noteq> 0 then hamming_loop (x AND (x - 1)) (count + 1) else Some count)"

definition hammingDistanceHashBigInt :: "int \<Rightarrow> int \<Rightarrow> nat option" where
  "hammingDistanceHashBigInt a b = hamming_loop (a XOR b) 0"

text \<open>
  The last loop of \<^verbatim>\<open>computeAHashBig\<close>: the hash of the grey values \<open>gray\<close> (64 of
  them, one for each pixel of the 8 x 8 canvas) and their average \<open>avg\<close>, both
  computed in doubles before.
\<close>

definition hash_bits :: "rat list \<Rightarrow> rat \<Rightarrow> int" where
  "hash_bits gray avg = foldl (\<lambda>hash g. push_bit 1 hash OR (if g \<ge> avg then 1 else 0)) 0 gray"

text \<open>\<^verbatim>\<open>cvSimilarityClient\<close> from the two hashes on.\<close>

definition cvSimilarityClient :: "int \<Rightarrow> int \<Rightarrow> SimilarityResult option" where
  "cvSimilarityClient h1 h2 =
     (case hammingDistanceHashBigInt h1 h2 of
        None \<Rightarrow> None
      | Some distance \<Rightarrow>
          let similarity = 1 - of_nat distance / 64;
              flags = [(''packaging_layout_diff'', distance > 0)];
              verdict = (if similarity \<ge> 85 / 100 then ''likely_match''
                         else if similarity \<ge> 7 / 10 then ''likely_match_with_warnings''
                         else ''mismatch'')
          in Some \<lparr>similarity = toFixed2 similarity, flags = flags, verdict = verdict\<rparr>)"

subsection \<open>Strategy B: labels and colours\<close>

record color =
  red :: "rat option"
  green :: "rat option"
  blue :: "rat option"

text \<open>One response of the annotation service, as far as the code reads it: the
  descriptions of \<^verbatim>\<open>labelAnnotations\<close> and the colours of
  \<^verbatim>\<open>imagePropertiesAnnotation.dominantColors.colors\<close>, each possibly missing.\<close>

record vision_response =
  labelAnnotations :: "jstring option list option"
  dominantColors :: "color option list option"

datatype cv_error = VisionResponseMissing

text \<open>\<^verbatim>\<open>v || 0\<close> on a number.\<close>

definition or_zero :: "rat option \<Rightarrow> rat" where
  "or_zero v = (case v of None \<Rightarrow> 0 | Some x \<Rightarrow> x)"

definition colorDistance :: "runtime \<Rightarrow> color \<Rightarrow> color \<Rightarrow> rat" where
  "colorDistance rt a b =
     (let dr = fl_sub rt (or_zero (red a)) (or_zero (red b));
          dg = fl_sub rt (or_zero (green a)) (or_zero (green b));
          db = fl_sub rt (or_zero (blue a)) (or_zero (blue b))
      in fl_sqrt rt (fl_add rt (fl_add rt (fl_mul rt dr dr) (fl_mul rt dg dg)) (fl_mul rt db db)))"

text \<open>The inner loop of \<^verbatim>\<open>paletteSimilarity\<close>: \<open>best\<close> is \<open>None\<close> for \<^verbatim>\<open>Infinity\<close>.\<close>

definition nearest :: "runtime \<Rightarrow> color \<Rightarrow> color list \<Rightarrow> rat option" where
  "nearest rt ca bRGB =
     fold (\<lambda>cb best. let d = colorDistance rt ca cb in
             (case best of None \<Rightarrow> Some d | Some b \<Rightarrow> if d < b then Some d else Some b))
          bRGB None"

definition black :: color where
  "black = \<lparr>red = Some 0, green = Some 0, blue = Some 0\<rparr>"

definition paletteSimilarity :: "runtime \<Rightarrow> color option list \<Rightarrow> color option list \<Rightarrow> rat" where
  "paletteSimilarity rt a b =
     (if length a = 0 \<or> length b = 0 then 0
      else
        let aRGB = map (\<lambda>c. case c of None \<Rightarrow> black | Some v \<Rightarrow> v) a;
            bRGB = map (\<lambda>c. case c of None \<Rightarrow> black | Some v \<Rightarrow> v) b;
            (total, count) = fold (\<lambda>ca (total, count).
                let best = nearest rt ca bRGB;
                    sim = fl_sub rt 1 (fl_div rt (case best of None \<Rightarrow> 442 | Some d \<Rightarrow> min d 442) 442)
                in (fl_add rt total sim, count + 1)) aRGB (0, 0 :: nat)
        in if count \<noteq> 0 then fl_div rt total (of_nat count) else 0)"

text \<open>A \<^verbatim>\<open>Set\<close> is the list of its elements in insertion order.\<close>

definition new_Set :: "'a list \<Rightarrow> 'a list" where
  "new_Set xs = fold (\<lambda>x s. if x \<in> set s then s else s @ [x]) xs []"

definition jaccardSimilarity :: "runtime \<Rightarrow> 'a list \<Rightarrow> 'a list \<Rightarrow> rat" where
  "jaccardSimilarity rt a b =
     (if length a = 0 \<and> length b = 0 then 0
      else
        let inter = fold (\<lambda>x inter. if x \<in> set b then inter + 1 else inter) a (0 :: int);
            union = int (length a) + int (length b) - inter
        in if union = 0 then 0 else fl_div rt (of_int inter) (of_int union))"

text \<open>\<^verbatim>\<open>/logo|brand|trademark/\<close>\<close>

definition logo_re :: regexp where
  "logo_re = \<lparr>pattern = alts [str ''logo'', str ''brand'', str ''trademark''], ignoreCase = False\<rparr>"

definition hasLogoIndication :: "jstring list \<Rightarrow> bool" where
  "hasLogoIndication labels = list_ex (js_test logo_re) labels"

text \<open>\<^verbatim>\<open>googleCVSimilarity\<close> from the two responses of the service on.\<close>

definition labels_of :: "runtime \<Rightarrow> vision_response \<Rightarrow> jstring list" where
  "labels_of rt resp =
     map (\<lambda>x. to_lower rt (case x of None \<Rightarrow> [] | Some d \<Rightarrow> d))
         (case labelAnnotations resp of None \<Rightarrow> [] | Some ls \<Rightarrow> ls)"

definition colors_of :: "vision_response \<Rightarrow> color option list" where
  "colors_of resp = take 5 (case dominantColors resp of None \<Rightarrow> [] | Some cs \<Rightarrow> cs)"

definition googleCVSimilarity ::
    "runtime \<Rightarrow> vision_response option \<Rightarrow> vision_response option \<Rightarrow> cv_error + SimilarityResult" where
  "googleCVSimilarity rt refResp userResp =
     (case (refResp, userResp) of
        (Some r, Some u) \<Rightarrow>
          let refLabels = labels_of rt r;
              userLabels = labels_of rt u;
              labelSim = jaccardSimilarity rt (new_Set refLabels) (new_Set userLabels);
              refColors = colors_of r;
              userColors = colors_of u;
              colorSim = paletteSimilarity rt refColors userColors;
              similarity = toFixed2 (fl_add rt (fl_mul rt labelSim (7 / 10)) (fl_mul rt colorSim (3 / 10)));
              flags = [(''packaging_layout_diff'', similarity < 1),
                       (''logo_mismatch'', \<not> hasLogoIndication refLabels \<or> \<not> hasLogoIndication userLabels)];
              verdict = (if similarity \<ge> 85 / 100 then ''likely_match''
                         else if similarity \<ge> 7 / 10 then ''likely_match_with_warnings''
                         else ''mismatch'')
          in Inr \<lparr>similarity = similarity, flags = flags, verdict = verdict\<rparr>
      | _ \<Rightarrow> Inl VisionResponseMissing)"

text \<open>
  The verdict mapping and the Jaccard index as the specification words them, and
  the number of one bits of a non-negative integer.
\<close>

definition verdict_of :: "rat \<Rightarrow> string" where
  "verdict_of s = (if s \<ge> 85 / 100 then ''likely_match''
                   else if 7 / 10 \<le> s \<and> s < 85 / 100 then ''likely_match_with_warnings''
                   else ''mismatch'')"

definition jaccard_index :: "runtime \<Rightarrow> 'a set \<Rightarrow> 'a set \<Rightarrow> rat" where
  "jaccard_index rt A B =
     (if A = {} \<and> B = {} then 0
      else fl_div rt (of_nat (card (A \<inter> B))) (of_nat (card (A \<union> B))))"

function popcount :: "int \<Rightarrow> nat" where
  "popcount x = (if x \<le> 0 then 0 else nat (x mod 2) + popcount (x div 2))"
  by pat_completeness auto
termination
  by (relation "measure nat") auto

declare popcount.simps [simp del]

text \<open>The doubles nearest to 0.85 and to 0.7.\<close>

definition double_0_85 :: rat where
  "double_0_85 = 7656119366529843 / 9007199254740992"

definition double_0_7 :: rat where
  "double_0_7 = 3152519739159347 / 4503599627370496"

text \<open>
  A runtime for the examples, which take no square root and have ASCII labels whose
  sums, products and quotients are exact: the four operations without rounding,
  the square root left as the identity.
\<close>

definition example_rt :: runtime where
  "example_rt = \<lparr>fl_add = (+), fl_sub = (-), fl_mul = (*), fl_div = (/), fl_sqrt = (\<lambda>x. x),
     to_lower = toLowerCase\<rparr>"

subsection \<open>The arithmetic of doubles\<close>

text \<open>
  The operations of IEEE doubles on the rationals: the result of an operation is the
  exact result rounded to the nearest double, of two nearest ones the one with the
  even significand. A double other than zero is \<open>n * 2 ^ e\<close> with
  \<open>2 ^ 52 \<le> \<bar>n\<bar> < 2 ^ 53\<close>; the range of the exponent is not bounded here, so
  overflow and underflow are not modelled: the numbers of strategy B are quotients
  of label counts, distances of colour components and their averages.
\<close>

text \<open>\<open>2 ^ k\<close> for an integer \<open>k\<close>.\<close>

definition pow2 :: "int \<Rightarrow> rat" where
  "pow2 k = (if 0 \<le> k then 2 ^ nat k else 1 / 2 ^ nat (- k))"

text \<open>The binary exponent of a positive number \<open>a\<close>: the \<open>k\<close> with
  \<open>2 ^ k \<le> a < 2 ^ (k + 1)\<close> (lemmas \<open>expo_bounds\<close> and \<open>expo_unique\<close>), found
  by halving a number from 2 on and doubling a number below 1.\<close>

function expo_up :: "rat \<Rightarrow> int \<Rightarrow> int" where
  "expo_up x k = (if 2 \<le> x then expo_up (x / 2) (k + 1) else k)"
  by pat_completeness auto
termination
proof (relation "measure (\<lambda>(x, k). nat \<lfloor>x\<rfloor>)")
  fix x :: rat and k :: int
  assume "2 \<le> x"
  then have "x / 2 \<le> x - 1" by simp
  then have "\<lfloor>x / 2\<rfloor> \<le> \<lfloor>x - 1\<rfloor>" by (rule floor_mono)
  moreover from \<open>2 \<le> x\<close> have "2 \<le> \<lfloor>x\<rfloor>" by (simp add: le_floor_iff)
  ultimately show "((x / 2, k + 1), (x, k)) \<in> measure (\<lambda>(x, k). nat \<lfloor>x\<rfloor>)" by simp
qed simp

function expo_down :: "rat \<Rightarrow> int \<Rightarrow> int" where
  "expo_down x k = (if 0 < x \<and> x < 1 then expo_down (2 * x) (k - 1) else k)"
  by pat_completeness auto
termination
proof (relation "measure (\<lambda>(x, k). nat \<lfloor>1 / x\<rfloor>)")
  fix x :: rat and k :: int
  assume a: "0 < x \<and> x < 1"
  then have "1 \<le> 1 / x" by simp
  then have one: "1 \<le> \<lfloor>1 / x\<rfloor>" by (simp add: le_floor_iff)
  define y where "y = 1 / x"
  from one have "(1 :: rat) \<le> of_int \<lfloor>y\<rfloor>" unfolding y_def by simp
  moreover have "y < of_int \<lfloor>y\<rfloor> + 1" by linarith
  ultimately have "y / 2 < of_int \<lfloor>y\<rfloor>" by linarith
  moreover have "1 / (2 * x) = y / 2" unfolding y_def by simp
  ultimately have "\<lfloor>1 / (2 * x)\<rfloor> < \<lfloor>1 / x\<rfloor>" unfolding y_def by (simp only: floor_less_iff)
  with one show "((2 * x, k - 1), (x, k)) \<in> measure (\<lambda>(x, k). nat \<lfloor>1 / x\<rfloor>)" by simp
qed simp

declare expo_up.simps [simp del] expo_down.simps [simp del]

definition expo :: "rat \<Rightarrow> int" where
  "expo a = (if 1 \<le> a then expo_up a 0 else expo_down a 0)"

text \<open>The nearest integer, a tie going to the even one.\<close>

definition round_half_even :: "rat \<Rightarrow> int" where
  "round_half_even q =
     (let f = \<lfloor>q\<rfloor>; r = q - of_int f
      in if r < 1 / 2 then f else if 1 / 2 < r then f + 1 else if even f then f else f + 1)"

text \<open>The nearest double: the number is scaled to \<open>2 ^ 52 \<le> a / 2 ^ e < 2 ^ 53\<close> and
  rounded to an integer there. A double is left as it is (lemma \<open>fl_idem\<close>).\<close>

definition fl :: "rat \<Rightarrow> rat" where
  "fl x = (if x = 0 then 0
           else let a = \<bar>x\<bar>; e = expo a - 52; mant = round_half_even (a / pow2 e)
                in (if x < 0 then - 1 else 1) * of_int mant * pow2 e)"

text \<open>
  The square root of a double, rounded to the nearest double: with \<open>e\<close> such that
  \<open>2 ^ 52 \<le> sqrt x / 2 ^ e < 2 ^ 53\<close> and \<open>s = x / 4 ^ e\<close>, the integer part \<open>f\<close> of
  \<open>sqrt s\<close> is the integer square root of the integer part of \<open>s\<close>, and \<open>sqrt s\<close>
  is above \<open>f + 1 / 2\<close> when \<open>s\<close> is above \<open>(2 f + 1)\<^sup>2 / 4\<close>. The code takes the root
  of a sum of squares only, so the root of a negative number (\<^verbatim>\<open>NaN\<close>) does not
  occur; it is 0 here.
\<close>

function isqrt :: "int \<Rightarrow> int" where
  "isqrt n = (if n \<le> 0 then 0
              else let r = 2 * isqrt (n div 4) in if (r + 1) * (r + 1) \<le> n then r + 1 else r)"
  by pat_completeness auto
termination
  by (relation "measure nat") auto

declare isqrt.simps [simp del]

definition sqrt_fl :: "rat \<Rightarrow> rat" where
  "sqrt_fl x = (if x \<le> 0 then 0
                else let e = expo x div 2 - 52; s = x / pow2 (2 * e); f = isqrt \<lfloor>s\<rfloor>;
                         h = of_int ((2 * f + 1) * (2 * f + 1)) / 4;
                         mant = (if h < s then f + 1 else if s < h then f else if even f then f else f + 1)
                     in of_int mant * pow2 e)"

text \<open>
  The runtime of doubles. An operation reads each argument as the double nearest to
  it: this turns a literal written as a decimal (\<^verbatim>\<open>0.7\<close>, \<^verbatim>\<open>0.3\<close>, \<^verbatim>\<open>442\<close>) into its
  double and changes no double. The lower-casing of a label stays a parameter.
\<close>

definition ieee :: "(jstring \<Rightarrow> jstring) \<Rightarrow> runtime" where
  "ieee lower = \<lparr>fl_add = (\<lambda>x y. fl (fl x + fl y)), fl_sub = (\<lambda>x y. fl (fl x - fl y)),
     fl_mul = (\<lambda>x y. fl (fl x * fl y)), fl_div = (\<lambda>x y. fl (fl x / fl y)),
     fl_sqrt = (\<lambda>x. sqrt_fl (fl x)), to_lower = lower\<rparr>"

text \<open>
  The Jaccard index over exact numbers, as the specification words it; the relative
  error of one rounding, \<open>2 ^ - 53\<close>; \<open>y\<close> approximates \<open>x\<close> with relative error \<open>e\<close>;
  and the relative error after two steps with relative errors \<open>e\<close> and \<open>d\<close>.
\<close>

definition jaccard :: "'a set \<Rightarrow> 'a set \<Rightarrow> rat" where
  "jaccard A B = (if A = {} \<and> B = {} then 0 else of_nat (card (A \<inter> B)) / of_nat (card (A \<union> B)))"

definition unit_roundoff :: rat where
  "unit_roundoff = 1 / 2 ^ 53"

definition rel_err :: "rat \<Rightarrow> rat \<Rightarrow> rat \<Rightarrow> bool" where
  "rel_err e x y \<longleftrightarrow> \<bar>y - x\<bar> \<le> e * \<bar>x\<bar>"

definition compose_err :: "rat \<Rightarrow> rat \<Rightarrow> rat" where
  "compose_err e d = e + d + e * d"

text \<open>The double nearest to 0.3, and the two similarities that
  \<^verbatim>\<open>googleCVSimilarity\<close> combines, under the names they have there.\<close>

definition double_0_3 :: rat where
  "double_0_3 = 5404319552844595 / 18014398509481984"

abbreviation labelSim :: "runtime \<Rightarrow> vision_response \<Rightarrow> vision_response \<Rightarrow> rat" where
  "labelSim rt r u \<equiv> jaccardSimilarity rt (new_Set (labels_of rt r)) (new_Set (labels_of rt u))"

abbreviation colorSim :: "runtime \<Rightarrow> vision_response \<Rightarrow> vision_response \<Rightarrow> rat" where
  "colorSim rt r u \<equiv> paletteSimilarity rt (colors_of r) (colors_of u)"

section \<open>What a pattern can match\<close>

text \<open>
  The words a pattern can match, without the order in which the matcher tries them:
  \<open>lang ci r\<close> is the set of texts \<open>r\<close> can consume (an assertion consumes
  nothing), and \<open>sem ci r cs\<close> pairs each of them with the captures after it, from
  the captures \<open>cs\<close> before. \<open>in_bound\<close> is the upper bound of a quantifier.
\<close>

fun in_bound :: "nat option \<Rightarrow> nat \<Rightarrow> bool" where
  "in_bound None n = True"
| "in_bound (Some h) n = (n \<le> h)"

fun lang :: "bool \<Rightarrow> regex \<Rightarrow> jstring set" where
  "lang ci Eps = {[]}"
| "lang ci (Atom c) = {[x] | x. cls_match ci c x}"
| "lang ci (Seq a b) = {u @ v | u v. u \<in> lang ci a \<and> v \<in> lang ci b}"
| "lang ci (Alt a b) = lang ci a \<union> lang ci b"
| "lang ci (Opt a) = insert [] (lang ci a)"
| "lang ci (Rep c lo hi g) = {w. lo \<le> length w \<and> in_bound hi (length w) \<and> list_all (cls_match ci c) w}"
| "lang ci (Grp n a) = lang ci a"
| "lang ci WordB = {[]}"
| "lang ci Bol = {[]}"
| "lang ci Eol = {[]}"

fun sem :: "bool \<Rightarrow> regex \<Rightarrow> caps \<Rightarrow> (jstring \<times> caps) set" where
  "sem ci (Seq a b) cs = {(u @ v, cs'') | u v cs' cs''. (u, cs') \<in> sem ci a cs \<and> (v, cs'') \<in> sem ci b cs'}"
| "sem ci (Alt a b) cs = sem ci a cs \<union> sem ci b cs"
| "sem ci (Opt a) cs = insert ([], cs) (sem ci a cs)"
| "sem ci (Grp n a) cs = {(w, (n, w) # cs') | w cs'. (w, cs') \<in> sem ci a cs}"
| "sem ci r cs = {(w, cs) | w. w \<in> lang ci r}"

fun wf_regex :: "regex \<Rightarrow> bool" where
  "wf_regex (Seq a b) = (wf_regex a \<and> wf_regex b)"
| "wf_regex (Alt a b) = (wf_regex a \<and> wf_regex b)"
| "wf_regex (Opt a) = wf_regex a"
| "wf_regex (Grp n a) = wf_regex a"
| "wf_regex (Rep c lo hi g) = (case hi of None \<Rightarrow> True | Some h \<Rightarrow> lo \<le> h)"
| "wf_regex r = True"

fun no_groups :: "regex \<Rightarrow> bool" where
  "no_groups (Seq a b) = (no_groups a \<and> no_groups b)"
| "no_groups (Alt a b) = (no_groups a \<and> no_groups b)"
| "no_groups (Opt a) = no_groups a"
| "no_groups (Grp n a) = False"
| "no_groups r = True"

text \<open>The canonical unit codes, the image of \<^verbatim>\<open>UNIT_MAP\<close>.\<close>

definition canonical_units :: "jstring list" where
  "canonical_units = map asc [''g'', ''kg'', ''ml'', ''L'', ''pcs'']"

text \<open>A lower bound of the length of the words of a pattern.\<close>

fun minlen :: "regex \<Rightarrow> nat" where
  "minlen (Atom c) = 1"
| "minlen (Seq a b) = minlen a + minlen b"
| "minlen (Alt a b) = min (minlen a) (minlen b)"
| "minlen (Rep c lo hi g) = lo"
| "minlen (Grp n a) = minlen a"
| "minlen r = 0"

text \<open>
  What \<^verbatim>\<open>l.replace(/.*?:\s*/i, "")\<close> leaves of a line \<open>l\<close>: the line itself when it
  has no colon; otherwise what precedes the first colon up to and including the last
  line terminator there (nothing when there is none: \<^verbatim>\<open>.\<close> does not match a line
  terminator, so the match starts after it), followed by what follows the first
  colon without its leading whitespace.
\<close>

definition label_stripped :: "jstring \<Rightarrow> jstring" where
  "label_stripped l =
     (if ch CHR '':'' \<notin> set l then l
      else
        let pre = takeWhile (\<lambda>x. x \<noteq> ch CHR '':'') l;
            post = tl (dropWhile (\<lambda>x. x \<noteq> ch CHR '':'') l)
        in rev (dropWhile (\<lambda>x. \<not> is_line_terminator x) (rev pre)) @ dropWhile is_space post)"

text \<open>A line with everything up to its first colon stripped, in the words of the
  specification.\<close>

definition after_first_colon :: "jstring \<Rightarrow> jstring" where
  "after_first_colon l = tl (dropWhile (\<lambda>x. x \<noteq> ch CHR '':'') l)"

text \<open>What precedes the first colon of a line (the whole line when it has none).\<close>

definition before_first_colon :: "jstring \<Rightarrow> jstring" where
  "before_first_colon l = takeWhile (\<lambda>x. x \<noteq> ch CHR '':'') l"

text \<open>An input without recognizable patterns: no pattern of the extractor matches
  the text, and no line matches the manufacturer or the name pattern.\<close>

definition no_recognizable_patterns :: "jstring \<Rightarrow> bool" where
  "no_recognizable_patterns raw \<longleftrightarrow>
     \<not> js_test mrp_re (normalize_text raw) \<and> \<not> js_test qty_re (normalize_text raw)
     \<and> \<not> js_test my_re (normalize_text raw) \<and> \<not> js_test care_re (normalize_text raw)
     \<and> list_all (\<lambda>l. \<not> js_test manuf_re l \<and> \<not> js_test name_re l) (lines_of (normalize_text raw))"

text \<open>The matcher of what follows \<^verbatim>\<open>.*?\<close> in \<^verbatim>\<open>/.*?:\s*/i\<close>: the colon and the
  whitespace after it.\<close>

definition label_K :: "cu option \<Rightarrow> jstring \<Rightarrow> (jstring \<times> caps) option" where
  "label_K p s = m True (seqs [Atom (Lit (ch CHR '':'')), Rep Space 0 None True]) p s []
                   (\<lambda>p' s' cs'. Some (s', cs'))"

text \<open>Example inputs.\<close>

definition rs_then_rupee :: jstring where
  "rs_then_rupee = asc ''Rs. 100 ('' @ [rupee] @ asc '')''"

definition no_annotations :: vision_response where
  "no_annotations = \<lparr>labelAnnotations = None, dominantColors = None\<rparr>"

definition two_labels :: vision_response where
  "two_labels = \<lparr>labelAnnotations = Some [Some (asc ''Bottle''), Some (asc ''Brand'')], dominantColors = None\<rparr>"

definition cr_before_label :: jstring where
  "cr_before_label = asc ''x'' @ [13] @ asc ''Mfg by: Acme'' @ [10] @ asc ''12, Road''"

definition name_and_address :: jstring where
  "name_and_address = asc ''Name: Green Tea'' @ [10] @ asc ''Packer: Acme'' @ [10] @ asc ''12, Road''"

definition quarter_ref :: vision_response where
  "quarter_ref = \<lparr>labelAnnotations = Some [Some (asc ''Bottle''), Some (asc ''Drink'')], dominantColors = None\<rparr>"

definition quarter_user :: vision_response where
  "quarter_user = \<lparr>labelAnnotations = Some [Some (asc ''bottle''), Some (asc ''Glass''), Some (asc ''Plastic'')],
     dominantColors = None\<rparr>"

section \<open>Soundness of the matcher\<close>

lemma rep_sound:
  "rep f lo hi g p s k = Some r \<Longrightarrow> (case hi of None \<Rightarrow> True | Some h \<Rightarrow> lo \<le> h) \<Longrightarrow>
   \<exists>w s' p'. s = w @ s' \<and> lo \<le> length w \<and> in_bound hi (length w) \<and> list_all f w \<and> k p' s' = Some r"
proof (induction s arbitrary: lo hi p)
  case Nil
  then show ?case by (cases hi) (auto split: if_splits)
next
  case (Cons x xs)
  show ?case
  proof (cases "0 < lo")
    case True
    with Cons.prems have fx: "f x" and r: "rep f (lo - 1) (dec hi) g (Some x) xs k = Some r"
      by (auto split: if_splits)
    from Cons.prems(2) True have "case dec hi of None \<Rightarrow> True | Some h \<Rightarrow> lo - 1 \<le> h"
      by (cases hi) auto
    from Cons.IH [OF r this] obtain w s' p' where
      w: "xs = w @ s'" "lo - 1 \<le> length w" "in_bound (dec hi) (length w)" "list_all f w" "k p' s' = Some r"
      by blast
    have "in_bound hi (length (x # w))"
      using w(3) Cons.prems(2) True by (cases hi) auto
    with w fx True show ?thesis
      by (intro exI [of _ "x # w"] exI [of _ s'] exI [of _ p']) auto
  next
    case lo0: False
    show ?thesis
    proof (cases "hi = Some 0 \<or> \<not> f x")
      case True
      with lo0 Cons.prems have "k p (x # xs) = Some r" by auto
      with lo0 show ?thesis
        by (intro exI [of _ "[]"] exI [of _ "x # xs"] exI [of _ p]) (cases hi; auto)
    next
      case False
      then have fx: "f x" and hi: "hi \<noteq> Some 0" by auto
      from lo0 False Cons.prems
      consider (a) "rep f 0 (dec hi) g (Some x) xs k = Some r" | (b) "k p (x # xs) = Some r"
        by (auto split: if_splits option.splits)
      then show ?thesis
      proof cases
        case a
        have "case dec hi of None \<Rightarrow> True | Some h \<Rightarrow> 0 \<le> h" by (cases hi) auto
        from Cons.IH [OF a this] obtain w s' p' where
          w: "xs = w @ s'" "in_bound (dec hi) (length w)" "list_all f w" "k p' s' = Some r"
          by blast
        have "in_bound hi (length (x # w))"
          using w(2) hi by (cases hi) auto
        with w fx lo0 show ?thesis
          by (intro exI [of _ "x # w"] exI [of _ s'] exI [of _ p']) auto
      next
        case b
        with lo0 show ?thesis
          by (intro exI [of _ "[]"] exI [of _ "x # xs"] exI [of _ p]) (cases hi; auto)
      qed
    qed
  qed
qed

lemma sem_lang: "(w, cs') \<in> sem ci r cs \<Longrightarrow> w \<in> lang ci r"
  by (induction r arbitrary: w cs cs') (auto, blast+)

lemma sem_no_groups: "no_groups r \<Longrightarrow> (w, cs') \<in> sem ci r cs \<longleftrightarrow> w \<in> lang ci r \<and> cs' = cs"
  by (induction r arbitrary: w cs cs') auto

lemma m_sound:
  "m ci r p s cs k = Some res \<Longrightarrow> wf_regex r \<Longrightarrow>
   \<exists>w s' p' cs'. s = w @ s' \<and> (w, cs') \<in> sem ci r cs \<and> k p' s' cs' = Some res"
proof (induction r arbitrary: p s cs k)
  case Eps
  then show ?case by auto
next
  case (Atom c)
  then obtain x xs where x: "s = x # xs" "cls_match ci c x" "k (Some x) xs cs = Some res"
    by (auto split: list.splits if_splits)
  then show ?case
    by (intro exI [of _ "[x]"] exI [of _ xs] exI [of _ "Some x"] exI [of _ cs]) auto
next
  case (Seq a b)
  from Seq.prems have "m ci a p s cs (\<lambda>p' s' cs'. m ci b p' s' cs' k) = Some res" by simp
  from Seq.IH(1) [OF this] Seq.prems(2) obtain w1 s1 p1 cs1 where
    a: "s = w1 @ s1" "(w1, cs1) \<in> sem ci a cs" "m ci b p1 s1 cs1 k = Some res" by auto
  from Seq.IH(2) [OF a(3)] Seq.prems(2) obtain w2 s2 p2 cs2 where
    b: "s1 = w2 @ s2" "(w2, cs2) \<in> sem ci b cs1" "k p2 s2 cs2 = Some res" by auto
  from a b show ?case
    by (intro exI [of _ "w1 @ w2"] exI [of _ s2] exI [of _ p2] exI [of _ cs2]) auto
next
  case (Alt a b)
  from Alt.prems(1) consider "m ci a p s cs k = Some res" | "m ci b p s cs k = Some res"
    by (auto split: option.splits)
  then show ?case
  proof cases
    case 1
    from Alt.IH(1) [OF 1] Alt.prems(2) show ?thesis by fastforce
  next
    case 2
    from Alt.IH(2) [OF 2] Alt.prems(2) show ?thesis by fastforce
  qed
next
  case (Opt a)
  from Opt.prems(1) consider "m ci a p s cs k = Some res" | "k p s cs = Some res"
    by (auto split: option.splits)
  then show ?case
  proof cases
    case 1
    from Opt.IH [OF 1] Opt.prems(2) show ?thesis by fastforce
  next
    case 2
    then show ?thesis
      by (intro exI [of _ "[]"] exI [of _ s] exI [of _ p] exI [of _ cs]) auto
  qed
next
  case (Rep c lo hi g)
  from Rep.prems have "rep (cls_match ci c) lo hi g p s (\<lambda>p' s'. k p' s' cs) = Some res"
    and "case hi of None \<Rightarrow> True | Some h \<Rightarrow> lo \<le> h" by auto
  from rep_sound [OF this] show ?case by auto
next
  case (Grp n a)
  from Grp.prems have
    "m ci a p s cs (\<lambda>p' s' cs'. k p' s' ((n, take (length s - length s') s) # cs')) = Some res"
    by simp
  from Grp.IH [OF this] Grp.prems(2) obtain w s' p' cs' where
    a: "s = w @ s'" "(w, cs') \<in> sem ci a cs" "k p' s' ((n, take (length s - length s') s) # cs') = Some res"
    by auto
  from a(1) have "take (length s - length s') s = w" by simp
  with a show ?case
    by (intro exI [of _ w] exI [of _ s'] exI [of _ p'] exI [of _ "(n, w) # cs'"]) auto
next
  case WordB
  then show ?case by (auto split: if_splits)
next
  case Bol
  then show ?case by (auto split: if_splits)
next
  case Eol
  then show ?case by (auto split: if_splits)
qed

lemma match_at_sound:
  assumes "match_at re pre s = Some mt" "wf_regex (pattern re)"
  shows "before mt = rev pre \<and> s = matched mt @ after mt
         \<and> (matched mt, captures mt) \<in> sem (ignoreCase re) (pattern re) []"
proof -
  from assms(1) obtain s' cs' where
    r: "m (ignoreCase re) (pattern re) (next_cu pre) s [] (\<lambda>p' s' cs'. Some (s', cs')) = Some (s', cs')"
    and mt: "mt = \<lparr>before = rev pre, matched = take (length s - length s') s, after = s', captures = cs'\<rparr>"
    by (auto simp: match_at_def split: option.splits)
  from m_sound [OF r assms(2)] obtain w where "s = w @ s'" "(w, cs') \<in> sem (ignoreCase re) (pattern re) []"
    by auto
  with mt show ?thesis by simp
qed

lemma search_sound:
  "search re pre s = Some mt \<Longrightarrow> wf_regex (pattern re) \<Longrightarrow>
   rev pre @ s = before mt @ matched mt @ after mt
   \<and> (matched mt, captures mt) \<in> sem (ignoreCase re) (pattern re) []"
proof (induction s arbitrary: pre)
  case Nil
  then have "match_at re pre [] = Some mt" by simp
  from match_at_sound [OF this Nil.prems(2)] show ?case by auto
next
  case (Cons x xs)
  show ?case
  proof (cases "match_at re pre (x # xs)")
    case None
    with Cons.prems have "search re (x # pre) xs = Some mt" by simp
    from Cons.IH [OF this Cons.prems(2)] show ?thesis by simp
  next
    case (Some mt')
    with Cons.prems have "match_at re pre (x # xs) = Some mt" by simp
    from match_at_sound [OF this Cons.prems(2)] show ?thesis by auto
  qed
qed

lemma js_match_sound:
  "js_match s re = Some mt \<Longrightarrow> wf_regex (pattern re) \<Longrightarrow>
   s = before mt @ matched mt @ after mt
   \<and> (matched mt, captures mt) \<in> sem (ignoreCase re) (pattern re) []"
  using search_sound [of re "[]" s mt] by (simp add: js_match_def)

section \<open>The patterns of the extractor\<close>

lemma lang_seqs_Cons: "lang ci (seqs (r # rs)) = {u @ v | u v. u \<in> lang ci r \<and> v \<in> lang ci (seqs rs)}"
  by (simp add: seqs_def)

lemma lang_seqs_Nil: "lang ci (seqs []) = {[]}"
  by (simp add: seqs_def)

lemma lang_alts: "lang ci (alts rs) = (\<Union>r\<in>set rs. lang ci r)"
  by (induction rs rule: alts.induct) auto

lemma canonicalize_lower:
  assumes "97 \<le> c" "c \<le> 122" "canonicalize x = canonicalize c"
  shows "(if 65 \<le> x \<and> x \<le> 90 then x + 32 else x) = c"
  using assms by (auto simp: canonicalize_def split: if_splits)

lemma lang_str_lower:
  "w \<in> lang True (str t) \<Longrightarrow> list_all (\<lambda>c. 97 \<le> ch c \<and> ch c \<le> 122) t \<Longrightarrow> toLowerCase w = asc t"
proof (induction t arbitrary: w)
  case Nil
  then show ?case by (simp add: str_def seqs_def toLowerCase_def asc_def)
next
  case (Cons c t)
  from Cons.prems(1) obtain x v where w: "w = x # v" "canonicalize x = canonicalize (ch c)" "v \<in> lang True (str t)"
    by (auto simp: str_def seqs_def)
  from Cons.prems(2) have c: "97 \<le> ch c" "ch c \<le> 122" and t: "list_all (\<lambda>c. 97 \<le> ch c \<and> ch c \<le> 122) t"
    by auto
  from Cons.IH [OF w(3) t] canonicalize_lower [OF c w(2)] w(1)
  show ?case by (simp add: toLowerCase_def asc_def ch_def)
qed

lemma lang_str_length: "w \<in> lang ci (str t) \<Longrightarrow> length w = length t"
  by (induction t arbitrary: w) (auto simp: str_def seqs_def)

lemma qty_unit_token:
  assumes "u \<in> lang True qty_unit"
  shows "toLowerCase u \<in> set (map asc unit_tokens)"
proof -
  from assms obtain t where t: "t \<in> set unit_tokens" "u \<in> lang True (str t)"
    by (auto simp: qty_unit_def lang_alts)
  have "list_all (\<lambda>t. list_all (\<lambda>c. 97 \<le> ch c \<and> ch c \<le> 122) t) unit_tokens"
    by (simp add: unit_tokens_def ch_def)
  with t(1) have "list_all (\<lambda>c. 97 \<le> ch c \<and> ch c \<le> 122) t"
    by (simp add: list_all_iff)
  from lang_str_lower [OF t(2) this] t(1) show ?thesis by simp
qed


lemma UNIT_MAP_tokens:
  "list_all (\<lambda>t. case UNIT_MAP (asc t) of None \<Rightarrow> False | Some v \<Rightarrow> v \<noteq> [] \<and> v \<in> set canonical_units) unit_tokens"
  by code_simp

lemma unit_canonical:
  assumes "u \<in> lang True qty_unit"
  shows "\<exists>v. js_or (UNIT_MAP (toLowerCase u)) (Some (toLowerCase u)) = Some v \<and> v \<in> set canonical_units"
proof -
  from qty_unit_token [OF assms] obtain t where t: "t \<in> set unit_tokens" "toLowerCase u = asc t"
    by auto
  with UNIT_MAP_tokens obtain v where "UNIT_MAP (asc t) = Some v" "v \<noteq> []" "v \<in> set canonical_units"
    by (auto simp: list_all_iff split: option.splits)
  with t show ?thesis by (simp add: js_or_def truthy_def)
qed

lemma cls_digit: "cls_match ci Digit = is_digit"
  by (rule ext) simp

lemma cls_space: "cls_match ci Space = is_space"
  by (rule ext) simp

lemma lit_nonletter:
  "\<not> (65 \<le> c \<and> c \<le> 90) \<Longrightarrow> \<not> (97 \<le> c \<and> c \<le> 122) \<Longrightarrow> cls_match ci (Lit c) x \<longleftrightarrow> x = c"
  by (auto simp: canonicalize_def split: if_splits)

lemma rep_greedy_all:
  "list_all f ds \<Longrightarrow> lo \<le> length ds \<Longrightarrow> (case rest of [] \<Rightarrow> True | x # _ \<Rightarrow> \<not> f x) \<Longrightarrow>
   k (if ds = [] then p else Some (last ds)) rest = Some r \<Longrightarrow>
   rep f lo None True p (ds @ rest) k = Some r"
proof (induction ds arbitrary: lo p)
  case Nil
  then show ?case by (cases rest) auto
next
  case (Cons d ds)
  from Cons.prems(4) have k: "k (if ds = [] then Some d else Some (last ds)) rest = Some r"
    by (cases "ds = []") simp_all
  from Cons.prems have f: "list_all f ds" "f d" and lo: "lo - 1 \<le> length ds" by auto
  show ?case
  proof (cases "0 < lo")
    case True
    with Cons.IH [OF f(1) lo Cons.prems(3) k] f(2) show ?thesis by simp
  next
    case False
    have "0 \<le> length ds" by simp
    from Cons.IH [OF f(1) this Cons.prems(3) k] False f(2) show ?thesis by simp
  qed
qed

lemma search_at_start: "match_at re pre s \<noteq> None \<Longrightarrow> search re pre s \<noteq> None"
  by (cases s) (auto split: option.splits)

lemma not_digit_dot: "\<not> is_digit (ch CHR ''.'')"
  by (simp add: is_digit_def ch_def)

lemma match_at_Some: 
  "m (ignoreCase re) (pattern re) (next_cu pre) s [] (\<lambda>p' s' cs'. Some (s', cs')) = Some r
   \<Longrightarrow> match_at re pre s \<noteq> None"
  by (cases r) (simp add: match_at_def)

lemma js_test_at_start:
  "m (ignoreCase re) (pattern re) None s [] (\<lambda>p' s' cs'. Some (s', cs')) = Some r \<Longrightarrow> js_test re s"
  unfolding js_test_def js_match_def
  by (rule search_at_start, rule match_at_Some [of _ _ _ r]) (simp add: next_cu_def)

lemma numeric_digits:
  assumes "ds \<noteq> []" "list_all is_digit ds"
  shows "js_test numeric_re ds"
proof -
  let ?fin = "\<lambda>(p' :: cu option) (s' :: jstring) (cs' :: caps). Some (s', cs')"
  let ?k = "\<lambda>p' s'. m False (seqs [Opt (seqs [Atom (Lit (ch CHR ''.'')), Rep Digit 1 None True]), Eol]) p' s' [] ?fin"
  have "rep (cls_match False Digit) 1 None True None (ds @ []) ?k = Some ([], [])"
  proof (rule rep_greedy_all)
    show "list_all (cls_match False Digit) ds" using assms(2) by (simp add: cls_digit)
    show "1 \<le> length ds" using assms(1) by (cases ds) auto
    show "case [] of [] \<Rightarrow> True | x # xa \<Rightarrow> \<not> cls_match False Digit x" by simp
    show "?k (if ds = [] then None else Some (last ds)) [] = Some ([], [])"
      by (simp add: seqs_def)
  qed
  moreover have "m (ignoreCase numeric_re) (pattern numeric_re) None ds [] ?fin
      = rep (cls_match False Digit) 1 None True None ds ?k"
    by (simp add: numeric_re_def seqs_def)
  ultimately show ?thesis
    by (intro js_test_at_start [of _ _ "([], [])"]) simp
qed

lemma numeric_decimal:
  assumes "ds \<noteq> []" "list_all is_digit ds" "es \<noteq> []" "list_all is_digit es"
  shows "js_test numeric_re (ds @ ch CHR ''.'' # es)"
proof -
  let ?fin = "\<lambda>(p' :: cu option) (s' :: jstring) (cs' :: caps). Some (s', cs')"
  let ?kend = "\<lambda>p' s'. m False (seqs [Eol]) p' s' [] ?fin"
  let ?k = "\<lambda>p' s'. m False (seqs [Opt (seqs [Atom (Lit (ch CHR ''.'')), Rep Digit 1 None True]), Eol]) p' s' [] ?fin"
  have 2: "rep (cls_match False Digit) 1 None True (Some (ch CHR ''.'')) (es @ []) ?kend = Some ([], [])"
  proof (rule rep_greedy_all)
    show "list_all (cls_match False Digit) es" using assms(4) by (simp add: cls_digit)
    show "1 \<le> length es" using assms(3) by (cases es) auto
    show "case [] of [] \<Rightarrow> True | x # xa \<Rightarrow> \<not> cls_match False Digit x" by simp
    show "?kend (if es = [] then Some (ch CHR ''.'') else Some (last es)) [] = Some ([], [])"
      by (simp add: seqs_def)
  qed
  have k: "?k p' (ch CHR ''.'' # es) = rep (cls_match False Digit) 1 None True (Some (ch CHR ''.'')) es ?kend" for p'
    using 2 by (simp add: seqs_def)
  have "rep (cls_match False Digit) 1 None True None (ds @ ch CHR ''.'' # es) ?k = Some ([], [])"
  proof (rule rep_greedy_all)
    show "list_all (cls_match False Digit) ds" using assms(2) by (simp add: cls_digit)
    show "1 \<le> length ds" using assms(1) by (cases ds) auto
    show "case ch CHR ''.'' # es of [] \<Rightarrow> True | x # xa \<Rightarrow> \<not> cls_match False Digit x"
      by (simp add: not_digit_dot)
    show "?k (if ds = [] then None else Some (last ds)) (ch CHR ''.'' # es) = Some ([], [])"
      using 2 unfolding k by simp
  qed
  moreover have "m (ignoreCase numeric_re) (pattern numeric_re) None s [] ?fin
      = rep (cls_match False Digit) 1 None True None s ?k" for s
    by (simp add: numeric_re_def seqs_def)
  ultimately show ?thesis
    by (intro js_test_at_start [of _ _ "([], [])"]) simp
qed

lemma sep_class: "cls_match ci (OneOf [Lit (ch CHR ''.''), Lit (ch CHR '','')]) x
    \<longleftrightarrow> x = ch CHR ''.'' \<or> x = ch CHR '',''"
  by (simp add: lit_nonletter ch_def del: cls_match.simps(1))

lemma lang_seqs2: "lang ci (seqs [a, b]) = {u @ v | u v. u \<in> lang ci a \<and> v \<in> lang ci b}"
  by (auto simp: seqs_def)

lemma lang_sep_digits:
  assumes "v \<in> lang ci (seqs [Atom (OneOf [Lit (ch CHR ''.''), Lit (ch CHR '','')]), Rep Digit lo hi g])"
  shows "\<exists>sep es. v = sep # es \<and> (sep = ch CHR ''.'' \<or> sep = ch CHR '','')
           \<and> lo \<le> length es \<and> in_bound hi (length es) \<and> list_all is_digit es"
proof -
  from assms obtain u es where v: "v = u @ es"
    and u: "u \<in> lang ci (Atom (OneOf [Lit (ch CHR ''.''), Lit (ch CHR '','')]))"
    and es: "es \<in> lang ci (Rep Digit lo hi g)"
    unfolding lang_seqs2 by blast
  from u obtain sep where "u = [sep]" "sep = ch CHR ''.'' \<or> sep = ch CHR '',''"
    unfolding lang.simps sep_class by blast
  with v es show ?thesis by (simp add: cls_digit)
qed

lemma qty_number_shape:
  assumes "n \<in> lang ci qty_number"
  shows "\<exists>ds. ds \<noteq> [] \<and> list_all is_digit ds \<and>
           (n = ds \<or> (\<exists>sep es. (sep = ch CHR ''.'' \<or> sep = ch CHR '','')
                          \<and> es \<noteq> [] \<and> list_all is_digit es \<and> n = ds @ sep # es))"
proof -
  from assms obtain ds v where n: "n = ds @ v" and ds: "ds \<in> lang ci (Rep Digit 1 (Some 4) True)"
    and v: "v \<in> lang ci (Opt (seqs [Atom (OneOf [Lit (ch CHR ''.''), Lit (ch CHR '','')]), Rep Digit 1 (Some 2) True]))"
    unfolding qty_number_def lang_seqs2 by blast
  from ds have ds': "ds \<noteq> []" "list_all is_digit ds" by (auto simp: cls_digit)
  from v have "v = [] \<or> v \<in> lang ci (seqs [Atom (OneOf [Lit (ch CHR ''.''), Lit (ch CHR '','')]), Rep Digit 1 (Some 2) True])"
    by simp
  then show ?thesis
  proof
    assume "v = []"
    with n ds' show ?thesis by auto
  next
    assume "v \<in> lang ci (seqs [Atom (OneOf [Lit (ch CHR ''.''), Lit (ch CHR '','')]), Rep Digit 1 (Some 2) True])"
    from lang_sep_digits [OF this] obtain sep es where
      "v = sep # es" "sep = ch CHR ''.'' \<or> sep = ch CHR '',''" "1 \<le> length es" "list_all is_digit es"
      by blast
    moreover from this(3) have "es \<noteq> []" by auto
    ultimately show ?thesis using n ds' by blast
  qed
qed

lemma digits_no_comma: "list_all is_digit ds \<Longrightarrow> js_replace_all ds (ch CHR '','') [] = ds"
  by (induction ds) (auto simp: js_replace_all_def is_digit_def ch_def)

lemma replace_all_append: "js_replace_all (a @ b) c t = js_replace_all a c t @ js_replace_all b c t"
  by (simp add: js_replace_all_def)

lemma replace_all_no: "c \<notin> set (js_replace_all s c [])"
  by (induction s) (auto simp: js_replace_all_def)

lemma qty_number_numeric:
  assumes "n \<in> lang ci qty_number"
  shows "js_replace_all n (ch CHR '','') [] \<noteq> [] \<and> js_test numeric_re (js_replace_all n (ch CHR '','') [])"
proof -
  from qty_number_shape [OF assms] obtain ds where ds: "ds \<noteq> []" "list_all is_digit ds"
    and n: "n = ds \<or> (\<exists>sep es. (sep = ch CHR ''.'' \<or> sep = ch CHR '','')
                          \<and> es \<noteq> [] \<and> list_all is_digit es \<and> n = ds @ sep # es)"
    by blast
  from n show ?thesis
  proof
    assume "n = ds"
    with ds show ?thesis by (simp add: digits_no_comma numeric_digits)
  next
    assume "\<exists>sep es. (sep = ch CHR ''.'' \<or> sep = ch CHR '','')
                          \<and> es \<noteq> [] \<and> list_all is_digit es \<and> n = ds @ sep # es"
    then obtain sep es where sep: "sep = ch CHR ''.'' \<or> sep = ch CHR '',''"
      and es: "es \<noteq> []" "list_all is_digit es" and n': "n = ds @ sep # es" by blast
    have cons: "js_replace_all (sep # es) (ch CHR '','') [] = js_replace_all [sep] (ch CHR '','') [] @ es"
      using replace_all_append [of "[sep]" es] es by (simp add: digits_no_comma)
    from sep show ?thesis
    proof
      assume "sep = ch CHR ''.''"
      then have "js_replace_all [sep] (ch CHR '','') [] = [ch CHR ''.'']"
        by (simp add: js_replace_all_def ch_def)
      with n' cons ds es show ?thesis
        by (simp add: replace_all_append digits_no_comma numeric_decimal)
    next
      assume "sep = ch CHR '',''"
      then have "js_replace_all [sep] (ch CHR '','') [] = []"
        by (simp add: js_replace_all_def)
      with n' cons ds es have "js_replace_all n (ch CHR '','') [] = ds @ es"
        by (simp add: replace_all_append digits_no_comma)
      moreover have "ds @ es \<noteq> []" "list_all is_digit (ds @ es)" using ds es by auto
      ultimately show ?thesis by (simp add: numeric_digits)
    qed
  qed
qed

lemma sem_seqs_Cons:
  "sem ci (seqs (r # rs)) cs = {(u @ v, cs'') | u v cs' cs''. (u, cs') \<in> sem ci r cs \<and> (v, cs'') \<in> sem ci (seqs rs) cs'}"
  by (simp add: seqs_def)

lemma sem_seqs_Nil: "sem ci (seqs []) cs = {([], cs)}"
  by (simp add: seqs_def)

lemma sem_Grp_flat: "no_groups a \<Longrightarrow> sem ci (Grp n a) cs = {(w, (n, w) # cs) | w. w \<in> lang ci a}"
  by (auto simp: sem_no_groups)

lemma sem_flat: "no_groups r \<Longrightarrow> sem ci r cs = {(w, cs) | w. w \<in> lang ci r}"
  by (auto simp: sem_no_groups)

lemma no_groups_seqs: "no_groups (seqs rs) = list_all no_groups rs"
  by (induction rs) (auto simp: seqs_def)

lemma no_groups_alts: "no_groups (alts rs) = list_all no_groups rs"
  by (induction rs rule: alts.induct) auto

lemma no_groups_str: "no_groups (str t)"
  by (simp add: str_def no_groups_seqs list_all_iff)

lemma wf_seqs: "wf_regex (seqs rs) = list_all wf_regex rs"
  by (induction rs) (auto simp: seqs_def)

lemma wf_alts: "wf_regex (alts rs) = list_all wf_regex rs"
  by (induction rs rule: alts.induct) auto

lemma wf_str: "wf_regex (str t)"
  by (simp add: str_def wf_seqs list_all_iff)

lemmas pat_simps = no_groups_seqs no_groups_alts no_groups_str wf_seqs wf_alts wf_str list_all_iff

lemma ng_qty: "no_groups qty_number" "no_groups qty_unit" "wf_regex (pattern qty_re)"
  by (auto simp: qty_number_def qty_unit_def qty_re_def pat_simps)

lemma ng_mrp: "no_groups mrp_prefix" "no_groups mrp_amount" "wf_regex (pattern mrp_re)"
  by (auto simp: mrp_prefix_def mrp_amount_def mrp_re_def pat_simps)

lemma ng_my: "no_groups my_month" "no_groups my_year" "wf_regex (pattern my_re)"
  by (auto simp: my_month_def my_year_def my_re_def pat_simps)

lemma ng_care: "no_groups care_number" "wf_regex (pattern care_re)"
  by (auto simp: care_number_def care_re_def pat_simps)

lemma qty_match_caps:
  assumes "js_match text qty_re = Some mt"
  shows "\<exists>n sp u. matched mt = n @ sp @ u \<and> captures mt = [(2, u), (1, n)]
           \<and> n \<in> lang True qty_number \<and> u \<in> lang True qty_unit"
proof -
  from js_match_sound [OF assms ng_qty(3)]
  have "(matched mt, captures mt) \<in> sem True (seqs [Grp 1 qty_number, Rep Space 0 None True, Grp 2 qty_unit, WordB]) []"
    by (simp add: qty_re_def)
  then show ?thesis
    unfolding sem_seqs_Cons sem_seqs_Nil sem_Grp_flat [OF ng_qty(1)] sem_Grp_flat [OF ng_qty(2)]
    by (auto simp: sem_flat)
qed

lemma mrp_match_caps:
  assumes "js_match text mrp_re = Some mt"
  shows "\<exists>pfx amt. matched mt = pfx @ amt \<and> captures mt = [(1, amt)]
           \<and> pfx \<in> lang True mrp_prefix \<and> amt \<in> lang True mrp_amount"
proof -
  from js_match_sound [OF assms ng_mrp(3)]
  have "(matched mt, captures mt) \<in> sem True (seqs [mrp_prefix, Grp 1 mrp_amount]) []"
    by (simp add: mrp_re_def)
  then show ?thesis
    unfolding sem_seqs_Cons sem_seqs_Nil sem_Grp_flat [OF ng_mrp(2)] sem_flat [OF ng_mrp(1)]
    by auto
qed


lemma my_match_caps:
  assumes "js_match text my_re = Some mt"
  shows "\<exists>mo sep y. matched mt = mo @ sep @ y \<and> captures mt = [(2, y), (1, mo)]
           \<and> mo \<in> lang False my_month \<and> y \<in> lang False my_year"
proof -
  from js_match_sound [OF assms ng_my(3)]
  have "(matched mt, captures mt) \<in> sem False (seqs
      [WordB, Grp 1 my_month, Rep Space 0 None True,
       Atom (OneOf [Lit (ch CHR ''/''), Lit (ch CHR ''.''), Lit (ch CHR ''-'')]),
       Rep Space 0 None True, Grp 2 my_year, WordB]) []"
    by (simp add: my_re_def)
  then show ?thesis
    unfolding sem_seqs_Cons sem_seqs_Nil sem_Grp_flat [OF ng_my(1)] sem_Grp_flat [OF ng_my(2)]
    by (auto simp: sem_flat)
qed

lemma care_match_caps:
  assumes "js_match text care_re = Some mt"
  shows "matched mt \<in> lang False care_number \<and> captures mt = [(1, matched mt)]"
proof -
  from js_match_sound [OF assms ng_care(2)]
  have "(matched mt, captures mt) \<in> sem False (Grp 1 care_number) []"
    by (simp add: care_re_def)
  then show ?thesis
    unfolding sem_Grp_flat [OF ng_care(1)] by auto
qed

lemma js_includes_single: "js_includes s [c] \<longleftrightarrow> c \<in> set s"
  by (induction s) auto

lemma normalize_text_id: "normalize_text raw = raw"
proof -
  have "js_replace_all s c [c] = s" for s :: jstring and c
    by (induction s) (auto simp: js_replace_all_def)
  then show ?thesis by (simp add: normalize_text_def)
qed

lemma extract_qty_None: "js_match text qty_re = None \<Longrightarrow> extract_qty text = Inr (None, None)"
  by (simp add: extract_qty_def)

lemma extract_qty_Some:
  assumes "js_match text qty_re = Some mt"
  shows "\<exists>n u v. map_of (captures mt) 1 = Some n \<and> map_of (captures mt) 2 = Some u
           \<and> n \<in> lang True qty_number \<and> u \<in> lang True qty_unit \<and> v \<in> set canonical_units
           \<and> js_or (UNIT_MAP (toLowerCase u)) (Some (toLowerCase u)) = Some v
           \<and> extract_qty text = Inr (Some (js_replace_all n (ch CHR '','') []), Some v)"
proof -
  from qty_match_caps [OF assms] obtain n sp u where
    c: "captures mt = [(2, u), (1, n)]" "n \<in> lang True qty_number" "u \<in> lang True qty_unit"
    by blast
  from unit_canonical [OF c(3)] obtain v where
    v: "js_or (UNIT_MAP (toLowerCase u)) (Some (toLowerCase u)) = Some v" "v \<in> set canonical_units"
    by blast
  from assms c(1) v(1) have "extract_qty text = Inr (Some (js_replace_all n (ch CHR '','') []), Some v)"
    by (simp add: extract_qty_def at_index_def bindE_def)
  with c v show ?thesis by simp
qed

lemma extract_mrp_None: "js_match text mrp_re = None \<Longrightarrow> extract_mrp text = Inr None"
  by (simp add: extract_mrp_def)

lemma extract_mrp_Some:
  assumes "js_match text mrp_re = Some mt"
  shows "\<exists>pfx amt. matched mt = pfx @ amt \<and> map_of (captures mt) 1 = Some amt
           \<and> pfx \<in> lang True mrp_prefix \<and> amt \<in> lang True mrp_amount
           \<and> extract_mrp text = Inr (Some (if rupee \<in> set text then rupee # amt else matched mt))"
proof -
  from mrp_match_caps [OF assms] obtain pfx amt where
    c: "matched mt = pfx @ amt" "captures mt = [(1, amt)]"
       "pfx \<in> lang True mrp_prefix" "amt \<in> lang True mrp_amount"
    by blast
  from assms c(2) have "extract_mrp text = Inr (Some (if rupee \<in> set text then rupee # amt else matched mt))"
    by (simp add: extract_mrp_def at_index_def bindE_def js_includes_single to_string_def)
  with c show ?thesis by simp
qed

lemma extract_month_year_None: "js_match text my_re = None \<Longrightarrow> extract_month_year text = Inr None"
  by (simp add: extract_month_year_def)

lemma extract_month_year_Some:
  assumes "js_match text my_re = Some mt"
  shows "\<exists>mo y. mo \<in> lang False my_month \<and> y \<in> lang False my_year
           \<and> extract_month_year text = Inr (Some (mo @ [ch CHR ''/''] @ y))"
proof -
  from my_match_caps [OF assms] obtain mo sep y where
    c: "captures mt = [(2, y), (1, mo)]" "mo \<in> lang False my_month" "y \<in> lang False my_year"
    by blast
  from assms c(1) have "extract_month_year text = Inr (Some (mo @ [ch CHR ''/''] @ y))"
    by (simp add: extract_month_year_def at_index_def bindE_def to_string_def)
  with c show ?thesis by blast
qed

lemma extract_consumer_care_None: "js_match text care_re = None \<Longrightarrow> extract_consumer_care text = Inr None"
  by (simp add: extract_consumer_care_def)

lemma extract_consumer_care_Some:
  assumes "js_match text care_re = Some mt"
  shows "matched mt \<in> lang False care_number \<and> extract_consumer_care text = Inr (Some (matched mt))"
  using care_match_caps [OF assms] assms
  by (simp add: extract_consumer_care_def at_index_def)

lemma extract_total:
  shows "\<exists>q u. extract_qty text = Inr (q, u)" and "\<exists>v. extract_mrp text = Inr v"
    and "\<exists>v. extract_month_year text = Inr v" and "\<exists>v. extract_consumer_care text = Inr v"
proof -
  show "\<exists>q u. extract_qty text = Inr (q, u)"
    using extract_qty_None [of "text"] extract_qty_Some [of "text"]
    by (cases "js_match text qty_re") blast+
  show "\<exists>v. extract_mrp text = Inr v"
    using extract_mrp_None [of "text"] extract_mrp_Some [of "text"]
    by (cases "js_match text mrp_re") blast+
  show "\<exists>v. extract_month_year text = Inr v"
    using extract_month_year_None [of "text"] extract_month_year_Some [of "text"]
    by (cases "js_match text my_re") blast+
  show "\<exists>v. extract_consumer_care text = Inr v"
    using extract_consumer_care_None [of "text"] extract_consumer_care_Some [of "text"]
    by (cases "js_match text care_re") blast+
qed

lemma parse_Inr:
  assumes "extract_qty raw = Inr (q, u)" "extract_mrp raw = Inr mr"
    "extract_month_year raw = Inr my" "extract_consumer_care raw = Inr cc"
  shows "parseFieldsFromRawText raw = Inr
    \<lparr>generic_name = extract_generic_name (lines_of raw), mrp = mr, net_quantity = q, unit = u,
     manufacturer_name = fst (extract_manufacturer (lines_of raw)),
     manufacturer_address = snd (extract_manufacturer (lines_of raw)),
     month_year = my, consumer_care = cc, raw_text = Some raw\<rparr>"
  using assms
  by (simp add: parseFieldsFromRawText_def normalize_text_id bindE_def Let_def split: prod.splits)

section \<open>The Hamming distance and the Jaccard index\<close>

lemma and_pred_odd:
  assumes "odd x"
  shows "x AND (x - 1) = x - (1 :: int)"
proof -
  from assms obtain q where x: "x = 2 * q + 1" by (auto elim: oddE)
  have "(2 * q + 1) AND (2 * q) = 2 * q"
    by (subst and_int_rec) simp
  with x show ?thesis by simp
qed

lemma and_pred_even:
  assumes "even x"
  shows "x AND (x - 1) = 2 * ((x div 2) AND (x div 2 - (1 :: int)))"
proof -
  from assms obtain q where x: "x = 2 * q" by (auto elim: evenE)
  have "(2 * q - 1) div 2 = q - 1" by linarith
  then have "(2 * q) AND (2 * q - 1) = 2 * (q AND (q - 1))"
    by (subst and_int_rec) simp
  with x show ?thesis by simp
qed

lemma popcount_0: "popcount 0 = 0"
  by (simp add: popcount.simps)

lemma popcount_double: "0 \<le> q \<Longrightarrow> popcount (2 * q) = popcount q"
  by (cases "q = 0") (simp_all add: popcount.simps [of "2 * q"] popcount_0)

lemma popcount_double1: "0 \<le> q \<Longrightarrow> popcount (2 * q + 1) = Suc (popcount q)"
  by (simp add: popcount.simps [of "2 * q + 1"])

lemma clear_lowest_bit:
  "0 < x \<Longrightarrow> 0 \<le> x AND (x - 1) \<and> x AND (x - 1) < x \<and> popcount (x AND (x - 1)) + 1 = popcount x"
proof (induction "nat x" arbitrary: x rule: less_induct)
  case less
  show ?case
  proof (cases "odd x")
    case True
    then obtain q where x: "x = 2 * q + 1" by (auto elim: oddE)
    with less.prems have q: "0 \<le> q" by simp
    from and_pred_odd [OF True] x have "x AND (x - 1) = 2 * q" by simp
    with x q show ?thesis by (simp add: popcount_double popcount_double1)
  next
    case False
    then obtain q where x: "x = 2 * q" by (auto elim: evenE)
    with less.prems have q: "0 < q" by simp
    with x have "nat q < nat x" by simp
    from less.hyps [OF this q] have
      k: "0 \<le> q AND (q - 1)" "q AND (q - 1) < q" "popcount (q AND (q - 1)) + 1 = popcount q"
      by simp_all
    from and_pred_even [of x] False x have "x AND (x - 1) = 2 * (q AND (q - 1))" by simp
    with k x q show ?thesis by (simp add: popcount_double)
  qed
qed

lemma hamming_loop_popcount: "0 \<le> x \<Longrightarrow> hamming_loop x c = Some (c + popcount x)"
proof (induction "nat x" arbitrary: x c rule: less_induct)
  case less
  show ?case
  proof (cases "x = 0")
    case True
    then show ?thesis by (subst hamming_loop.simps) (simp add: popcount_0)
  next
    case False
    with less.prems have "0 < x" by simp
    from clear_lowest_bit [OF this] have
      k: "0 \<le> x AND (x - 1)" "x AND (x - 1) < x" "popcount (x AND (x - 1)) + 1 = popcount x"
      by simp_all
    from k(1,2) \<open>0 < x\<close> have "nat (x AND (x - 1)) < nat x" by linarith
    from less.hyps [OF this k(1)] have "hamming_loop (x AND (x - 1)) (c + 1) = Some (c + 1 + popcount (x AND (x - 1)))" .
    with False k(3) show ?thesis by (subst hamming_loop.simps) simp
  qed
qed

lemma popcount_bound: "0 \<le> x \<Longrightarrow> x < 2 ^ k \<Longrightarrow> popcount x \<le> k"
proof (induction k arbitrary: x)
  case 0
  then have "x = 0" by simp
  then show ?case by (simp add: popcount_0)
next
  case (Suc k)
  then have "0 \<le> x div 2" "x div 2 < 2 ^ k" by simp_all
  from Suc.IH [OF this] have "popcount (x div 2) \<le> k" .
  moreover have "nat (x mod 2) \<le> 1" by simp
  ultimately have "nat (x mod 2) + popcount (x div 2) \<le> Suc k" by linarith
  then show ?case by (subst popcount.simps) simp
qed

lemma hash_step: "0 \<le> h \<Longrightarrow> h < 2 ^ k \<Longrightarrow>
   0 \<le> push_bit 1 h OR (if b then 1 else 0) \<and> push_bit 1 h OR (if b then 1 else 0) < (2 :: int) ^ Suc k"
  by (auto simp: or_one_eq)

lemma hash_fold:
  "0 \<le> h \<Longrightarrow> h < 2 ^ k \<Longrightarrow>
   0 \<le> foldl (\<lambda>hash g. push_bit 1 hash OR (if g \<ge> avg then 1 else 0)) h gs
   \<and> foldl (\<lambda>hash g. push_bit 1 hash OR (if g \<ge> avg then 1 else 0)) h gs < (2 :: int) ^ (k + length gs)"
proof (induction gs arbitrary: h k)
  case Nil
  then show ?case by simp
next
  case (Cons g gs)
  from hash_step [OF Cons.prems, of "g \<ge> avg"] Cons.IH [of "push_bit 1 h OR (if g \<ge> avg then 1 else 0)" "Suc k"]
  show ?case by simp
qed

lemma hash_bits_range: "0 \<le> hash_bits gray avg \<and> hash_bits gray avg < 2 ^ length gray"
  using hash_fold [of 0 0 avg gray] by (simp add: hash_bits_def)

lemma hamming_distance:
  assumes "0 \<le> a" "a < 2 ^ 64" "0 \<le> b" "b < 2 ^ 64"
  shows "hammingDistanceHashBigInt a b = Some (popcount (a XOR b)) \<and> popcount (a XOR b) \<le> 64"
proof -
  have x: "0 \<le> a XOR b" "a XOR b < 2 ^ 64"
    using assms XOR_upper [of a 64 b] by simp_all
  from popcount_bound [OF this] hamming_loop_popcount [OF x(1), of 0]
  show ?thesis by (simp add: hammingDistanceHashBigInt_def)
qed

lemma toFixed2_unit: "0 \<le> x \<Longrightarrow> x \<le> 1 \<Longrightarrow> 0 \<le> toFixed2 x \<and> toFixed2 x \<le> 1"
proof -
  assume x: "0 \<le> x" "x \<le> 1"
  then have "\<lfloor>100 * x + 1 / 2\<rfloor> \<le> 100" by (simp add: floor_le_iff)
  moreover from x have "0 \<le> \<lfloor>100 * x + 1 / 2\<rfloor>" by simp
  ultimately show ?thesis using x by (simp add: toFixed2_def)
qed

lemma toFixed2_one: "toFixed2 1 = 1"
  by code_simp

lemma popcount_example: "popcount (hash_bits (replicate 64 1) 1 XOR hash_bits (replicate 63 0 @ [2]) 1) = 63"
  by code_simp

lemma rounding_keeps_verdict:
  "list_all (\<lambda>d. verdict_of (toFixed2 (1 - of_nat d / 64)) = verdict_of (1 - of_nat d / 64)) [0..<65]"
  by code_simp

lemma thresholds_on_64ths:
  "list_all (\<lambda>d. ((1 - of_nat d / 64 \<ge> double_0_85) = (1 - of_nat d / 64 \<ge> (85 / 100 :: rat)))
               \<and> ((1 - of_nat d / 64 \<ge> double_0_7) = (1 - of_nat d / 64 \<ge> (7 / 10 :: rat)))) [0..<65]"
  by code_simp

lemma cvSimilarityClient_result:
  assumes "0 \<le> a" "a < 2 ^ 64" "0 \<le> b" "b < 2 ^ 64"
  shows "hammingDistanceHashBigInt a b = Some (popcount (a XOR b)) \<and> popcount (a XOR b) \<le> 64
           \<and> cvSimilarityClient a b = Some \<lparr>similarity = toFixed2 (1 - of_nat (popcount (a XOR b)) / 64),
                 flags = [(''packaging_layout_diff'', popcount (a XOR b) > 0)],
                 verdict = verdict_of (1 - of_nat (popcount (a XOR b)) / 64)\<rparr>"
  using hamming_distance [OF assms]
  by (simp add: cvSimilarityClient_def verdict_of_def Let_def)


lemma new_Set_fold:
  "distinct s \<Longrightarrow> distinct (fold (\<lambda>x s. if x \<in> set s then s else s @ [x]) xs s)
     \<and> set (fold (\<lambda>x s. if x \<in> set s then s else s @ [x]) xs s) = set s \<union> set xs"
  by (induction xs arbitrary: s) auto

lemma new_Set: "distinct (new_Set xs)" "set (new_Set xs) = set xs"
  using new_Set_fold [of "[]" xs] by (simp_all add: new_Set_def)

lemma inter_fold:
  "fold (\<lambda>x inter. if x \<in> B then inter + 1 else inter) a (i :: int) = i + int (length (filter (\<lambda>x. x \<in> B) a))"
  by (induction a arbitrary: i) auto

lemma jaccard_refines:
  assumes "distinct a" "distinct b"
  shows "jaccardSimilarity rt a b = jaccard_index rt (set a) (set b)"
proof (cases "a = [] \<and> b = []")
  case True
  then show ?thesis by (simp add: jaccardSimilarity_def jaccard_index_def)
next
  case False
  have "set (filter (\<lambda>x. x \<in> set b) a) = set a \<inter> set b" by auto
  with assms(1) have inter: "length (filter (\<lambda>x. x \<in> set b) a) = card (set a \<inter> set b)"
    by (metis distinct_card distinct_filter)
  have cu: "card (set a) + card (set b) = card (set a \<union> set b) + card (set a \<inter> set b)"
    by (rule card_Un_Int) simp_all
  from assms have len: "length a = card (set a)" "length b = card (set b)"
    by (simp_all add: distinct_card)
  from False have ne: "card (set a \<union> set b) \<noteq> 0" by auto
  have union: "int (length a) + int (length b) - int (card (set a \<inter> set b)) = int (card (set a \<union> set b))"
    using cu len by simp
  from False have "\<not> (length a = 0 \<and> length b = 0)" by simp
  then have "jaccardSimilarity rt a b =
      (if int (length a) + int (length b) - int (card (set a \<inter> set b)) = 0 then 0
       else fl_div rt (of_int (int (card (set a \<inter> set b))))
              (of_int (int (length a) + int (length b) - int (card (set a \<inter> set b)))))"
    unfolding jaccardSimilarity_def Let_def inter_fold inter by simp
  also have "\<dots> = fl_div rt (of_nat (card (set a \<inter> set b))) (of_nat (card (set a \<union> set b)))"
    unfolding union using ne by auto
  also have "\<dots> = jaccard_index rt (set a) (set b)"
    using False by (auto simp: jaccard_index_def)
  finally show ?thesis .
qed

lemma palette_empty: "a = [] \<or> b = [] \<Longrightarrow> paletteSimilarity rt a b = 0"
  by (auto simp: paletteSimilarity_def)

section \<open>Rounding to doubles\<close>

lemma pow2_powi: "pow2 k = 2 powi k"
  by (simp add: pow2_def power_int_def field_simps)

lemma pow2_pos: "0 < pow2 k"
  by (simp add: pow2_powi)

lemma pow2_add: "pow2 (i + j) = pow2 i * pow2 j"
  by (simp add: pow2_powi power_int_add)

lemma pow2_Suc: "pow2 (k + 1) = 2 * pow2 k"
  by (simp add: pow2_add) (simp add: pow2_def)

lemma expo_up_bounds:
  "1 \<le> x \<Longrightarrow> pow2 (expo_up x k - k) \<le> x \<and> x < 2 * pow2 (expo_up x k - k)"
proof (induction x k rule: expo_up.induct)
  case (1 x k)
  show ?case
  proof (cases "2 \<le> x")
    case True
    then have "1 \<le> x / 2" by simp
    from 1(1) [OF True this] have ih: "pow2 (expo_up (x / 2) (k + 1) - (k + 1)) \<le> x / 2"
      "x / 2 < 2 * pow2 (expo_up (x / 2) (k + 1) - (k + 1))" by simp_all
    have e: "expo_up x k = expo_up (x / 2) (k + 1)" using True by (subst expo_up.simps) simp
    have "pow2 (expo_up x k - k) = 2 * pow2 (expo_up (x / 2) (k + 1) - (k + 1))"
      using pow2_Suc [of "expo_up (x / 2) (k + 1) - (k + 1)"] e by (simp add: algebra_simps)
    with ih show ?thesis by simp
  next
    case False
    then have "expo_up x k = k" by (subst expo_up.simps) simp
    with False 1(2) show ?thesis by (simp add: pow2_def)
  qed
qed

lemma expo_down_bounds:
  "0 < x \<Longrightarrow> x < 1 \<Longrightarrow> pow2 (expo_down x k - k) \<le> x \<and> x < 2 * pow2 (expo_down x k - k)"
proof (induction x k rule: expo_down.induct)
  case (1 x k)
  from 1(2,3) have e: "expo_down x k = expo_down (2 * x) (k - 1)" by (subst expo_down.simps) simp
  show ?case
  proof (cases "2 * x < 1")
    case True
    from 1(1) [OF _ _ True] 1(2,3) have ih: "pow2 (expo_down (2 * x) (k - 1) - (k - 1)) \<le> 2 * x"
      "2 * x < 2 * pow2 (expo_down (2 * x) (k - 1) - (k - 1))" by simp_all
    have "pow2 (expo_down (2 * x) (k - 1) - (k - 1)) = 2 * pow2 (expo_down x k - k)"
      using pow2_Suc [of "expo_down x k - k"] e by (simp add: algebra_simps)
    with ih show ?thesis by simp
  next
    case False
    then have "expo_down (2 * x) (k - 1) = k - 1" by (subst expo_down.simps) simp
    with e have "expo_down x k - k = - 1" by simp
    with False 1(3) show ?thesis by (simp add: pow2_def)
  qed
qed

lemma expo_bounds: "0 < a \<Longrightarrow> pow2 (expo a) \<le> a \<and> a < 2 * pow2 (expo a)"
  using expo_up_bounds [of a 0] expo_down_bounds [of a 0] by (cases "1 \<le> a") (simp_all add: expo_def)

lemma round_half_even_err: "\<bar>of_int (round_half_even q) - q\<bar> \<le> 1 / 2"
proof -
  have "of_int \<lfloor>q\<rfloor> \<le> q" "q < of_int \<lfloor>q\<rfloor> + 1" by linarith+
  then show ?thesis by (auto simp: round_half_even_def Let_def)
qed

lemma fl_err: "\<bar>fl x - x\<bar> \<le> unit_roundoff * \<bar>x\<bar>"
proof (cases "x = 0")
  case True
  then show ?thesis by (simp add: fl_def)
next
  case False
  define a where "a = \<bar>x\<bar>"
  define e where "e = expo a - 52"
  define m where "m = round_half_even (a / pow2 e)"
  from False have a: "0 < a" by (simp add: a_def)
  have p: "0 < pow2 e" by (rule pow2_pos)
  have "pow2 (expo a) = pow2 (e + 52)" by (simp add: e_def)
  also have "\<dots> = pow2 e * 2 ^ 52" by (simp only: pow2_add) (simp add: pow2_def)
  finally have "pow2 e * 2 ^ 52 \<le> a" using expo_bounds [OF a] by simp
  then have low: "pow2 e / 2 \<le> unit_roundoff * a" by (simp add: unit_roundoff_def)
  have "\<bar>of_int m - a / pow2 e\<bar> \<le> 1 / 2" unfolding m_def by (rule round_half_even_err)
  then have "\<bar>of_int m - a / pow2 e\<bar> * pow2 e \<le> 1 / 2 * pow2 e"
    using p by (intro mult_right_mono) simp_all
  moreover have "\<bar>of_int m - a / pow2 e\<bar> * pow2 e = \<bar>of_int m * pow2 e - a\<bar>"
  proof -
    have "\<bar>of_int m - a / pow2 e\<bar> * pow2 e = \<bar>(of_int m - a / pow2 e) * pow2 e\<bar>"
      using p by (simp add: abs_mult)
    also have "(of_int m - a / pow2 e) * pow2 e = of_int m * pow2 e - a"
      using p by (simp add: field_simps)
    finally show ?thesis .
  qed
  ultimately have err: "\<bar>of_int m * pow2 e - a\<bar> \<le> unit_roundoff * a" using low by simp
  have "fl x = (if x < 0 then - 1 else 1) * of_int m * pow2 e"
    using False by (simp add: fl_def Let_def a_def e_def m_def)
  then have "\<bar>fl x - x\<bar> = \<bar>of_int m * pow2 e - a\<bar>"
    by (cases "x < 0") (simp_all add: a_def abs_minus_commute)
  with err show ?thesis by (simp add: a_def)
qed

lemma rel_err_fl: "rel_err unit_roundoff x (fl x)"
  by (simp add: rel_err_def fl_err)

lemma rel_err_abs: "rel_err e x y \<Longrightarrow> \<bar>y\<bar> \<le> (1 + e) * \<bar>x\<bar>"
  unfolding rel_err_def by (auto simp: algebra_simps)

lemma rel_err_trans:
  assumes "rel_err e x y" "rel_err d y z" "0 \<le> d"
  shows "rel_err (e + d + e * d) x z"
proof -
  from assms(2) have "\<bar>z - y\<bar> \<le> d * \<bar>y\<bar>" by (simp add: rel_err_def)
  also have "\<dots> \<le> d * ((1 + e) * \<bar>x\<bar>)"
    using rel_err_abs [OF assms(1)] assms(3) by (rule mult_left_mono)
  finally have "\<bar>z - y\<bar> \<le> d * ((1 + e) * \<bar>x\<bar>)" .
  moreover from assms(1) have "\<bar>y - x\<bar> \<le> e * \<bar>x\<bar>" by (simp add: rel_err_def)
  moreover have "\<bar>z - x\<bar> \<le> \<bar>z - y\<bar> + \<bar>y - x\<bar>" by simp
  ultimately show ?thesis by (simp add: rel_err_def algebra_simps)
qed

lemma rel_err_mult:
  assumes "rel_err e a a'" "rel_err d b b'" "0 \<le> d"
  shows "rel_err (e + d + e * d) (a * b) (a' * b')"
proof -
  have "a' * b' - a * b = a' * (b' - b) + b * (a' - a)" by (simp add: algebra_simps)
  then have "\<bar>a' * b' - a * b\<bar> \<le> \<bar>a'\<bar> * \<bar>b' - b\<bar> + \<bar>b\<bar> * \<bar>a' - a\<bar>"
    by (metis abs_mult abs_triangle_ineq)
  moreover have "\<bar>a'\<bar> * \<bar>b' - b\<bar> \<le> ((1 + e) * \<bar>a\<bar>) * (d * \<bar>b\<bar>)"
    using rel_err_abs [OF assms(1)] assms(2) by (intro mult_mono) (simp_all add: rel_err_def assms(3))
  moreover have "\<bar>b\<bar> * \<bar>a' - a\<bar> \<le> \<bar>b\<bar> * (e * \<bar>a\<bar>)"
    using assms(1) by (intro mult_left_mono) (simp_all add: rel_err_def)
  ultimately show ?thesis by (simp add: rel_err_def abs_mult algebra_simps)
qed

lemma rel_err_inverse:
  assumes "rel_err d b b'" "0 \<le> d" "d \<le> 1 / 2" "b \<noteq> 0"
  shows "rel_err (2 * d) (1 / b) (1 / b')"
proof -
  from assms(1) have d: "\<bar>b' - b\<bar> \<le> d * \<bar>b\<bar>" by (simp add: rel_err_def)
  also have "\<dots> \<le> 1 / 2 * \<bar>b\<bar>" using assms(3) by (intro mult_right_mono) simp_all
  finally have "\<bar>b\<bar> - \<bar>b'\<bar> \<le> 1 / 2 * \<bar>b\<bar>" by linarith
  then have half: "\<bar>b\<bar> / 2 \<le> \<bar>b'\<bar>" by simp
  with assms(4) have nz: "b' \<noteq> 0" by auto
  have "1 / b' - 1 / b = (b - b') / (b * b')" using nz assms(4) by (simp add: field_simps)
  then have "\<bar>1 / b' - 1 / b\<bar> = \<bar>b' - b\<bar> / (\<bar>b\<bar> * \<bar>b'\<bar>)"
    by (simp add: abs_mult abs_minus_commute)
  also have "\<dots> \<le> (d * \<bar>b\<bar>) / (\<bar>b\<bar> * \<bar>b'\<bar>)"
    using d by (intro divide_right_mono) simp_all
  also have "\<dots> = d / \<bar>b'\<bar>" using assms(4) by simp
  also have "\<dots> \<le> d / (\<bar>b\<bar> / 2)"
    using half assms(2,4) by (intro divide_left_mono) simp_all
  also have "\<dots> = 2 * d * \<bar>1 / b\<bar>" by simp
  finally show ?thesis by (simp add: rel_err_def)
qed

lemma toFixed2_near: "\<bar>toFixed2 y - y\<bar> \<le> 1 / 200"
proof (cases "y < 0")
  case True
  define n where "n = \<lfloor>100 * (- y) + 1 / 2\<rfloor>"
  have "of_int n \<le> 100 * (- y) + 1 / 2" "100 * (- y) + 1 / 2 < of_int n + 1"
    unfolding n_def by linarith+
  moreover have "toFixed2 y = - (of_int n / 100)" using True by (simp add: toFixed2_def n_def)
  ultimately show ?thesis by (simp only:)
next
  case False
  define n where "n = \<lfloor>100 * y + 1 / 2\<rfloor>"
  have "of_int n \<le> 100 * y + 1 / 2" "100 * y + 1 / 2 < of_int n + 1"
    unfolding n_def by linarith+
  moreover have "toFixed2 y = of_int n / 100" using False by (simp add: toFixed2_def n_def)
  ultimately show ?thesis by (simp only:)
qed

lemma toFixed2_hundredths: "\<exists>n :: int. toFixed2 y = of_int n / 100"
proof (cases "y < 0")
  case True
  have "toFixed2 y = of_int (- \<lfloor>100 * (- y) + 1 / 2\<rfloor>) / 100" using True by (simp add: toFixed2_def)
  then show ?thesis by blast
next
  case False
  then show ?thesis by (auto simp: toFixed2_def)
qed


lemma rel_err_fl_after: "rel_err e x y \<Longrightarrow> rel_err (compose_err e unit_roundoff) x (fl y)"
  using rel_err_trans [OF _ rel_err_fl, of e x y] by (simp add: compose_err_def unit_roundoff_def)

lemma rel_err_mult_fl:
  "rel_err e a a' \<Longrightarrow>
   rel_err (compose_err (compose_err (compose_err e unit_roundoff) unit_roundoff) unit_roundoff)
     (a * c) (fl (fl a' * fl c))"
proof -
  assume "rel_err e a a'"
  then have "rel_err (compose_err e unit_roundoff) a (fl a')" by (rule rel_err_fl_after)
  from rel_err_mult [OF this rel_err_fl [of c]]
  have "rel_err (compose_err (compose_err e unit_roundoff) unit_roundoff) (a * c) (fl a' * fl c)"
    by (simp add: compose_err_def unit_roundoff_def)
  then show ?thesis by (rule rel_err_fl_after)
qed

lemma rel_err_refl: "rel_err 0 x x"
  by (simp add: rel_err_def)

lemma rel_err_zero: "0 \<le> e \<Longrightarrow> rel_err e 0 0"
  by (simp add: rel_err_def)

lemma rel_err_div_fl:
  assumes "b \<noteq> 0"
  shows "rel_err (compose_err (compose_err unit_roundoff (2 * unit_roundoff)) unit_roundoff)
           (a / b) (fl (fl a / fl b))"
proof -
  have "rel_err (2 * unit_roundoff) (1 / b) (1 / fl b)"
    by (rule rel_err_inverse [OF rel_err_fl _ _ assms]) (simp_all add: unit_roundoff_def)
  from rel_err_mult [OF rel_err_fl [of a] this]
  have "rel_err (compose_err unit_roundoff (2 * unit_roundoff)) (a / b) (fl a / fl b)"
    by (simp add: compose_err_def unit_roundoff_def)
  then show ?thesis by (rule rel_err_fl_after)
qed

lemma jaccard_unit: "0 \<le> jaccard A B \<and> jaccard A B \<le> 1"
proof (cases "finite (A \<union> B)")
  case True
  then have "card (A \<inter> B) \<le> card (A \<union> B)" by (intro card_mono) auto
  then show ?thesis by (auto simp: jaccard_def divide_le_eq_1)
next
  case False
  then show ?thesis by (simp add: jaccard_def)
qed

lemma jaccard_index_err:
  assumes "finite A" "finite B"
  shows "rel_err (compose_err (compose_err unit_roundoff (2 * unit_roundoff)) unit_roundoff)
           (jaccard A B) (jaccard_index (ieee lc) A B)"
proof (cases "A = {} \<and> B = {}")
  case True
  then show ?thesis by (simp add: jaccard_def jaccard_index_def rel_err_def)
next
  case False
  with assms have "card (A \<union> B) \<noteq> 0" by auto
  then have ne: "(of_nat (card (A \<union> B)) :: rat) \<noteq> 0" by simp
  from False have j: "jaccard A B = of_nat (card (A \<inter> B)) / of_nat (card (A \<union> B))"
    by (auto simp: jaccard_def)
  from False have i: "jaccard_index (ieee lc) A B
       = fl (fl (of_nat (card (A \<inter> B))) / fl (of_nat (card (A \<union> B))))"
    by (auto simp: jaccard_index_def ieee_def)
  show ?thesis unfolding j i by (rule rel_err_div_fl [OF ne])
qed

lemma fl_add_err:
  assumes "rel_err e a a'" "rel_err d b b'"
  shows "\<bar>fl (fl a' + fl b') - (a + b)\<bar>
           \<le> compose_err (compose_err e unit_roundoff) unit_roundoff * \<bar>a\<bar>
            + compose_err (compose_err d unit_roundoff) unit_roundoff * \<bar>b\<bar>"
proof -
  define ea where "ea = compose_err e unit_roundoff"
  define eb where "eb = compose_err d unit_roundoff"
  have a: "rel_err ea a (fl a')" unfolding ea_def using assms(1) by (rule rel_err_fl_after)
  have b: "rel_err eb b (fl b')" unfolding eb_def using assms(2) by (rule rel_err_fl_after)
  from a b have s: "\<bar>fl a' + fl b' - (a + b)\<bar> \<le> ea * \<bar>a\<bar> + eb * \<bar>b\<bar>"
    unfolding rel_err_def by linarith
  from rel_err_abs [OF a] rel_err_abs [OF b]
  have "\<bar>fl a' + fl b'\<bar> \<le> (1 + ea) * \<bar>a\<bar> + (1 + eb) * \<bar>b\<bar>" by linarith
  then have "unit_roundoff * \<bar>fl a' + fl b'\<bar> \<le> unit_roundoff * ((1 + ea) * \<bar>a\<bar> + (1 + eb) * \<bar>b\<bar>)"
    by (intro mult_left_mono) (simp_all add: unit_roundoff_def)
  with fl_err [of "fl a' + fl b'"]
  have "\<bar>fl (fl a' + fl b') - (fl a' + fl b')\<bar> \<le> unit_roundoff * ((1 + ea) * \<bar>a\<bar> + (1 + eb) * \<bar>b\<bar>)"
    by linarith
  with s have "\<bar>fl (fl a' + fl b') - (a + b)\<bar>
      \<le> ea * \<bar>a\<bar> + eb * \<bar>b\<bar> + unit_roundoff * ((1 + ea) * \<bar>a\<bar> + (1 + eb) * \<bar>b\<bar>)"
    by linarith
  also have "\<dots> = compose_err ea unit_roundoff * \<bar>a\<bar> + compose_err eb unit_roundoff * \<bar>b\<bar>"
    by (simp add: compose_err_def algebra_simps)
  finally show ?thesis by (simp add: ea_def eb_def)
qed

lemma weighted_sum_err:
  assumes "rel_err (compose_err (compose_err unit_roundoff (2 * unit_roundoff)) unit_roundoff) j l"
    "0 \<le> j" "j \<le> 1"
  shows "\<bar>toFixed2 (fl_add (ieee lc) (fl_mul (ieee lc) l (7 / 10)) (fl_mul (ieee lc) c (3 / 10)))
           - (7 / 10 * j + 3 / 10 * c)\<bar> \<le> 1 / 200 + (1 + \<bar>c\<bar>) / 10 ^ 15"
proof -
  define y where "y = fl (fl (fl (fl l * fl (7 / 10))) + fl (fl (fl c * fl (3 / 10))))"
  define ea where "ea = compose_err (compose_err (compose_err (compose_err (compose_err
      (compose_err (compose_err unit_roundoff (2 * unit_roundoff)) unit_roundoff)
      unit_roundoff) unit_roundoff) unit_roundoff) unit_roundoff) unit_roundoff"
  define eb where "eb = compose_err (compose_err (compose_err (compose_err (compose_err
      0 unit_roundoff) unit_roundoff) unit_roundoff) unit_roundoff) unit_roundoff"
  have "\<bar>y - (j * (7 / 10) + c * (3 / 10))\<bar> \<le> ea * \<bar>j * (7 / 10)\<bar> + eb * \<bar>c * (3 / 10)\<bar>"
    unfolding y_def ea_def eb_def
    by (rule fl_add_err [OF rel_err_mult_fl [OF assms(1)] rel_err_mult_fl [OF rel_err_refl]])
  moreover have "ea \<le> 1 / 10 ^ 15" "eb \<le> 1 / 10 ^ 15" "0 \<le> ea" "0 \<le> eb"
    by (simp_all add: ea_def eb_def compose_err_def unit_roundoff_def)
  moreover have "\<bar>j * (7 / 10)\<bar> \<le> 1" using assms(2,3) by simp
  moreover have "\<bar>c * (3 / 10)\<bar> \<le> \<bar>c\<bar>" by simp
  ultimately have "\<bar>y - (j * (7 / 10) + c * (3 / 10))\<bar> \<le> 1 / 10 ^ 15 * 1 + 1 / 10 ^ 15 * \<bar>c\<bar>"
    by (meson add_mono mult_mono order_trans abs_ge_zero)
  then have "\<bar>y - (7 / 10 * j + 3 / 10 * c)\<bar> \<le> (1 + \<bar>c\<bar>) / 10 ^ 15"
    by (simp add: algebra_simps add_divide_distrib)
  moreover have "\<bar>toFixed2 y - y\<bar> \<le> 1 / 200" by (rule toFixed2_near)
  ultimately have "\<bar>toFixed2 y - (7 / 10 * j + 3 / 10 * c)\<bar> \<le> 1 / 200 + (1 + \<bar>c\<bar>) / 10 ^ 15"
    by linarith
  moreover have "fl_add (ieee lc) (fl_mul (ieee lc) l (7 / 10)) (fl_mul (ieee lc) c (3 / 10)) = y"
    by (simp add: ieee_def y_def)
  ultimately show ?thesis by simp
qed

lemma pow2_mono: "i \<le> j \<Longrightarrow> pow2 i \<le> pow2 j"
  by (simp add: pow2_powi power_int_increasing)

lemma expo_unique:
  assumes "pow2 k \<le> a" "a < 2 * pow2 k"
  shows "expo a = k"
proof (rule ccontr)
  assume n: "expo a \<noteq> k"
  have "0 < a" using pow2_pos [of k] assms(1) by linarith
  from expo_bounds [OF this] have b: "pow2 (expo a) \<le> a" "a < 2 * pow2 (expo a)" by simp_all
  from n consider "expo a + 1 \<le> k" | "k + 1 \<le> expo a" by linarith
  then show False
  proof cases
    case 1
    from pow2_mono [OF 1] have "2 * pow2 (expo a) \<le> pow2 k" by (simp add: pow2_Suc)
    with assms(1) b(2) show False by linarith
  next
    case 2
    from pow2_mono [OF 2] have "2 * pow2 k \<le> pow2 (expo a)" by (simp add: pow2_Suc)
    with assms(2) b(1) show False by linarith
  qed
qed

lemma round_half_even_int: "round_half_even (of_int k) = k"
  by (simp add: round_half_even_def)

lemma round_half_even_range:
  assumes "of_int lo \<le> q" "q < of_int hi"
  shows "lo \<le> round_half_even q \<and> round_half_even q \<le> hi"
proof -
  from assms have "lo \<le> \<lfloor>q\<rfloor>" "\<lfloor>q\<rfloor> < hi" by (simp_all add: le_floor_iff floor_less_iff)
  then show ?thesis by (auto simp: round_half_even_def Let_def)
qed

lemma fl_minus: "fl (- x) = - fl x"
  by (simp add: fl_def Let_def)

lemma fl_double:
  assumes "2 ^ 52 \<le> k" "k < 2 ^ 53"
  shows "fl (of_int k * pow2 e) = of_int k * pow2 e"
proof -
  define a where "a = of_int k * pow2 e"
  have p: "0 < pow2 e" by (rule pow2_pos)
  from assms(1) have lo: "(2 :: rat) ^ 52 \<le> of_int k" by (metis of_int_le_iff of_int_numeral of_int_power)
  from assms(2) have hi: "of_int k < (2 :: rat) ^ 53" by (metis of_int_less_iff of_int_numeral of_int_power)
  have e52: "pow2 (e + 52) = pow2 e * 2 ^ 52" by (simp only: pow2_add) (simp add: pow2_def)
  from lo p have "pow2 e * 2 ^ 52 \<le> a" unfolding a_def by (simp add: mult.commute)
  moreover from hi p have "a < 2 * (pow2 e * 2 ^ 52)" unfolding a_def by (simp add: mult.commute)
  ultimately have "expo a = e + 52" unfolding e52 [symmetric] by (rule expo_unique)
  moreover from lo p have pos: "0 < a" unfolding a_def by (simp add: zero_less_mult_iff)
  moreover have "a / pow2 e = of_int k" using p by (simp add: a_def)
  ultimately have "fl a = a" by (simp add: fl_def Let_def round_half_even_int) (simp add: a_def)
  then show ?thesis by (simp add: a_def)
qed

lemma fl_idem: "fl (fl x) = fl x"
proof (cases "x = 0")
  case True
  then show ?thesis by (simp add: fl_def)
next
  case False
  define a where "a = \<bar>x\<bar>"
  define e where "e = expo a - 52"
  define k where "k = round_half_even (a / pow2 e)"
  from False have a: "0 < a" by (simp add: a_def)
  have p: "0 < pow2 e" by (rule pow2_pos)
  have e52: "pow2 (expo a) = pow2 e * 2 ^ 52"
    using pow2_add [of e 52] by (simp add: e_def pow2_def)
  from expo_bounds [OF a] have "pow2 e * 2 ^ 52 \<le> a" "a < 2 * (pow2 e * 2 ^ 52)"
    by (simp_all add: e52)
  with p have "of_int (2 ^ 52) \<le> a / pow2 e" "a / pow2 e < of_int (2 ^ 53)"
    by (simp_all add: field_simps)
  from round_half_even_range [OF this] have r: "2 ^ 52 \<le> k" "k \<le> 2 ^ 53" by (simp_all add: k_def)
  have "fl (of_int k * pow2 e) = of_int k * pow2 e"
  proof (cases "k < 2 ^ 53")
    case True
    with r(1) show ?thesis by (rule fl_double)
  next
    case False
    with r(2) have "k = 2 ^ 53" by simp
    then have "of_int k * pow2 e = of_int (2 ^ 52) * pow2 (e + 1)" by (simp add: pow2_Suc)
    moreover have "fl (of_int (2 ^ 52) * pow2 (e + 1)) = of_int (2 ^ 52) * pow2 (e + 1)"
      by (rule fl_double) simp_all
    ultimately show ?thesis by simp
  qed
  moreover have "fl x = (if x < 0 then - 1 else 1) * of_int k * pow2 e"
    using False by (simp add: fl_def Let_def a_def e_def k_def)
  ultimately show ?thesis using fl_minus [of "of_int k * pow2 e"] by (cases "x < 0") simp_all
qed

lemma fl_literals: "fl (7 / 10) = double_0_7 \<and> fl (85 / 100) = double_0_85"
  by code_simp


lemma isqrt_bounds:
  "0 \<le> n \<Longrightarrow> 0 \<le> isqrt n \<and> isqrt n * isqrt n \<le> n \<and> n < (isqrt n + 1) * (isqrt n + 1)"
proof (induction n rule: isqrt.induct)
  case (1 n)
  show ?case
  proof (cases "n \<le> 0")
    case True
    then have "isqrt n = 0" by (subst isqrt.simps) simp
    with True 1(2) show ?thesis by simp
  next
    case False
    define q where "q = n div 4"
    define r where "r = isqrt q"
    from 1(2) have "0 \<le> q" by (simp add: q_def)
    from 1(1) [OF False] this have ih: "0 \<le> r" "r * r \<le> q" "q < (r + 1) * (r + 1)"
      by (simp_all add: q_def r_def)
    have n: "4 * q \<le> n" "n < 4 * q + 4" unfolding q_def by presburger+
    from ih(3) have "q + 1 \<le> (r + 1) * (r + 1)" by simp
    then have "4 * q + 4 \<le> (2 * r + 2) * (2 * r + 2)" by (simp add: algebra_simps)
    with n(2) have up: "n < (2 * r + 2) * (2 * r + 2)" by linarith
    from ih(2) have "(2 * r) * (2 * r) \<le> 4 * q" by (simp add: algebra_simps)
    with n(1) have low: "(2 * r) * (2 * r) \<le> n" by linarith
    have e: "isqrt n = (if (2 * r + 1) * (2 * r + 1) \<le> n then 2 * r + 1 else 2 * r)"
      using False by (subst isqrt.simps) (simp add: Let_def q_def r_def)
    show ?thesis
    proof (cases "(2 * r + 1) * (2 * r + 1) \<le> n")
      case True
      with e have "isqrt n = 2 * r + 1" by simp
      with True up ih(1) show ?thesis by (simp add: algebra_simps)
    next
      case False
      with e have "isqrt n = 2 * r" by simp
      with False low ih(1) show ?thesis by (simp add: algebra_simps)
    qed
  qed
qed

lemma sqrt_fl_examples:
  "sqrt_fl 2 = 6369051672525773 / 4503599627370496 \<and> sqrt_fl 442 = 5917672501187003 / 281474976710656
   \<and> sqrt_fl 16 = 4 \<and> sqrt_fl (1 / 4) = 1 / 2"
  by code_simp

lemma fl_weights: "fl (7 / 10) = double_0_7 \<and> fl (3 / 10) = double_0_3"
  by code_simp

lemma fl_zero: "fl 0 = 0"
  by (simp add: fl_def)

lemma jaccardSimilarity_double:
  "fl (jaccardSimilarity (ieee lc) a b) = jaccardSimilarity (ieee lc) a b"
  by (simp add: jaccardSimilarity_def Let_def ieee_def fl_idem fl_zero)

lemma paletteSimilarity_double:
  "fl (paletteSimilarity (ieee lc) a b) = paletteSimilarity (ieee lc) a b"
  by (simp add: paletteSimilarity_def Let_def ieee_def fl_idem fl_zero split: prod.splits)

lemma weighted_sum_doubles:
  assumes "fl l = l" "fl c = c"
  shows "fl_add (ieee lc) (fl_mul (ieee lc) l (7 / 10)) (fl_mul (ieee lc) c (3 / 10))
           = fl (fl (l * double_0_7) + fl (c * double_0_3))"
  using assms fl_weights by (simp add: ieee_def fl_idem)

lemma label_similarity_err:
  assumes "finite A" "finite B"
  shows "\<bar>jaccard_index (ieee lc) A B - jaccard A B\<bar> \<le> jaccard A B / 10 ^ 15"
proof -
  define e where "e = compose_err (compose_err unit_roundoff (2 * unit_roundoff)) unit_roundoff"
  from jaccard_index_err [OF assms, of lc]
  have "\<bar>jaccard_index (ieee lc) A B - jaccard A B\<bar> \<le> e * \<bar>jaccard A B\<bar>"
    by (simp add: rel_err_def e_def)
  moreover have "e \<le> 1 / 10 ^ 15" by (simp add: e_def compose_err_def unit_roundoff_def)
  then have "e * \<bar>jaccard A B\<bar> \<le> 1 / 10 ^ 15 * \<bar>jaccard A B\<bar>" by (intro mult_right_mono) simp_all
  moreover have "\<bar>jaccard A B\<bar> = jaccard A B" using jaccard_unit [of A B] by simp
  ultimately show ?thesis by simp
qed

section \<open>Label lines\<close>

lemma rep_greedy_total:
  "rep f 0 None True p s (\<lambda>p' s'. Some (g s')) = Some (g (dropWhile f s))"
  by (induction s arbitrary: p) auto


lemma label_K_simps:
  "x \<noteq> ch CHR '':'' \<Longrightarrow> label_K p (x # xs) = None"
  "label_K p [] = None"
  "label_K p (ch CHR '':'' # xs) = Some (dropWhile is_space xs, [])"
proof -
  have colon: "cls_match True (Lit (ch CHR '':'')) x \<longleftrightarrow> x = ch CHR '':''" for x
    by (rule lit_nonletter) (simp_all add: ch_def)
  show "x \<noteq> ch CHR '':'' \<Longrightarrow> label_K p (x # xs) = None"
    by (simp add: label_K_def seqs_def colon del: cls_match.simps(1))
  show "label_K p [] = None"
    by (simp add: label_K_def seqs_def)
  have "rep is_space 0 None True (Some (ch CHR '':'')) xs (\<lambda>p' s'. Some (s', [])) = Some (dropWhile is_space xs, [])"
    using rep_greedy_total [of is_space "Some (ch CHR '':'')" xs "\<lambda>s'. (s', [])"] .
  then show "label_K p (ch CHR '':'' # xs) = Some (dropWhile is_space xs, [])"
    by (simp add: label_K_def seqs_def colon cls_space del: cls_match.simps(1))
qed

lemma label_lazy_fail:
  "ch CHR '':'' \<notin> set u \<Longrightarrow> rest = [] \<or> (hd rest \<noteq> ch CHR '':'' \<and> \<not> f (hd rest)) \<Longrightarrow>
   rep f 0 None False p (u @ rest) label_K = None"
proof (induction u arbitrary: p)
  case Nil
  then show ?case by (cases rest) (auto simp: label_K_simps)
next
  case (Cons x u)
  from Cons.prems have "x \<noteq> ch CHR '':''" "ch CHR '':'' \<notin> set u" by auto
  with Cons.IH [OF this(2) Cons.prems(2)] show ?case by (simp add: label_K_simps)
qed

lemma label_lazy_hit:
  "ch CHR '':'' \<notin> set b \<Longrightarrow> list_all f b \<Longrightarrow>
   rep f 0 None False p (b @ ch CHR '':'' # post) label_K = Some (dropWhile is_space post, [])"
proof (induction b arbitrary: p)
  case Nil
  then show ?case by (simp add: label_K_simps)
next
  case (Cons x b)
  from Cons.prems have "x \<noteq> ch CHR '':''" "ch CHR '':'' \<notin> set b" "list_all f b" "f x" by auto
  with Cons.IH [OF this(2,3)] show ?case by (simp add: label_K_simps)
qed

lemma label_match_at:
  "match_at label_re pre s =
     (case rep (cls_match True Dot) 0 None False (next_cu pre) s label_K of
        Some (s', cs') \<Rightarrow> Some \<lparr>before = rev pre, matched = take (length s - length s') s, after = s', captures = cs'\<rparr>
      | None \<Rightarrow> None)"
proof -
  have "label_K = (\<lambda>p s. m True (seqs [Atom (Lit (ch CHR '':'')), Rep Space 0 None True]) p s []
                   (\<lambda>p' s' cs'. Some (s', cs')))"
    by (rule ext)+ (simp add: label_K_def)
  then show ?thesis
    by (simp add: match_at_def label_re_def seqs_def)
qed

lemma colon_not_lt: "\<not> is_line_terminator (ch CHR '':'')"
  by (simp add: is_line_terminator_def ch_def)

lemma label_no_match:
  assumes "ch CHR '':'' \<notin> set u" "rest = [] \<or> is_line_terminator (hd rest)"
  shows "match_at label_re pre (u @ rest) = None"
proof -
  from assms(2) colon_not_lt have "rest = [] \<or> (hd rest \<noteq> ch CHR '':'' \<and> \<not> cls_match True Dot (hd rest))"
    by auto
  from label_lazy_fail [where f = "cls_match True Dot", OF assms(1) this]
  show ?thesis by (simp add: label_match_at)
qed

lemma label_search_none: "ch CHR '':'' \<notin> set s \<Longrightarrow> search label_re pre s = None"
proof (induction s arbitrary: pre)
  case Nil
  from label_no_match [of "[]" "[]" pre] show ?case by simp
next
  case (Cons x s)
  from label_no_match [of "x # s" "[]" pre] Cons.prems have "match_at label_re pre (x # s) = None" by simp
  with Cons.IH [of "x # pre"] Cons.prems show ?case by simp
qed

lemma label_search_skip:
  "ch CHR '':'' \<notin> set a \<Longrightarrow> is_line_terminator t \<Longrightarrow>
   search label_re pre (a @ t # s) = search label_re (t # rev a @ pre) s"
proof (induction a arbitrary: pre)
  case Nil
  from label_no_match [of "[]" "t # s" pre] Nil.prems have "match_at label_re pre (t # s) = None" by simp
  then show ?case by simp
next
  case (Cons x a)
  from label_no_match [of "x # a" "t # s" pre] Cons.prems
  have "match_at label_re pre (x # a @ t # s) = None" by simp
  with Cons.IH [of "x # pre"] Cons.prems show ?case by simp
qed

lemma label_search_hit:
  assumes "ch CHR '':'' \<notin> set b" "list_all (\<lambda>x. \<not> is_line_terminator x) b"
  shows "\<exists>mt. search label_re pre (b @ ch CHR '':'' # post) = Some mt
           \<and> before mt = rev pre \<and> after mt = dropWhile is_space post"
proof -
  from assms(2) have "list_all (cls_match True Dot) b" by (simp add: list_all_iff)
  from label_lazy_hit [where f = "cls_match True Dot", OF assms(1) this]
  have "\<exists>mt. match_at label_re pre (b @ ch CHR '':'' # post) = Some mt
           \<and> before mt = rev pre \<and> after mt = dropWhile is_space post"
    by (simp add: label_match_at)
  then show ?thesis by (cases "b @ ch CHR '':'' # post") auto
qed

lemma label_replace: "js_replace_empty l label_re = label_stripped l"
proof (cases "ch CHR '':'' \<in> set l")
  case False
  then show ?thesis
    by (simp add: js_replace_empty_def js_match_def label_search_none label_stripped_def)
next
  case True
  define pre where "pre = takeWhile (\<lambda>x. x \<noteq> ch CHR '':'') l"
  define post where "post = tl (dropWhile (\<lambda>x. x \<noteq> ch CHR '':'') l)"
  from True have "dropWhile (\<lambda>x. x \<noteq> ch CHR '':'') l \<noteq> []" by simp
  moreover from this have "hd (dropWhile (\<lambda>x. x \<noteq> ch CHR '':'') l) = ch CHR '':''"
    using hd_dropWhile [of "\<lambda>x. x \<noteq> ch CHR '':''" l] by simp
  ultimately have "dropWhile (\<lambda>x. x \<noteq> ch CHR '':'') l = ch CHR '':'' # post"
    unfolding post_def by (metis list.collapse)
  then have l: "l = pre @ ch CHR '':'' # post"
    unfolding pre_def by (metis takeWhile_dropWhile_id)
  have pre: "ch CHR '':'' \<notin> set pre"
    unfolding pre_def by (auto dest: set_takeWhileD)
  have stripped: "label_stripped l = rev (dropWhile (\<lambda>x. \<not> is_line_terminator x) (rev pre)) @ dropWhile is_space post"
    using True by (simp add: label_stripped_def pre_def post_def Let_def)
  show ?thesis
  proof (cases "\<exists>x\<in>set pre. is_line_terminator x")
    case False
    then have nolt: "list_all (\<lambda>x. \<not> is_line_terminator x) pre" by (simp add: list_all_iff)
    from label_search_hit [OF pre nolt, of "[]" post] l
    have "js_replace_empty l label_re = dropWhile is_space post"
      by (auto simp: js_replace_empty_def js_match_def)
    moreover from nolt have "dropWhile (\<lambda>x. \<not> is_line_terminator x) (rev pre) = []"
      by (simp add: list_all_iff)
    ultimately show ?thesis using stripped by simp
  next
    case True
    from split_list_last_prop [OF this] obtain a t b where
      s: "pre = a @ t # b" "is_line_terminator t" "\<forall>z\<in>set b. \<not> is_line_terminator z" by blast
    from pre s(1) have na: "ch CHR '':'' \<notin> set a" and nb: "ch CHR '':'' \<notin> set b" by auto
    from s(3) have nolt: "list_all (\<lambda>x. \<not> is_line_terminator x) b" by (simp add: list_all_iff)
    have "search label_re [] l = search label_re (t # rev a @ []) (b @ ch CHR '':'' # post)"
      using label_search_skip [OF na s(2), of "[]" "b @ ch CHR '':'' # post"] l s(1) by simp
    with label_search_hit [OF nb nolt, of "t # rev a @ []" post]
    have "js_replace_empty l label_re = a @ [t] @ dropWhile is_space post"
      by (auto simp: js_replace_empty_def js_match_def)
    moreover have "dropWhile (\<lambda>x. \<not> is_line_terminator x) (rev pre) = t # rev a"
      using s by (simp add: dropWhile_append3)
    ultimately show ?thesis using stripped by simp
  qed
qed

lemma find_indexOf:
  "find P xs = Some l \<Longrightarrow>
   \<exists>i<length xs. xs ! i = l \<and> P l \<and> (\<forall>j<i. \<not> P (xs ! j)) \<and> indexOf xs l = int i"
proof (induction xs)
  case Nil
  then show ?case by simp
next
  case (Cons x xs)
  show ?case
  proof (cases "P x")
    case True
    with Cons.prems have "x = l" by simp
    with True show ?thesis by (intro exI [of _ 0]) simp
  next
    case False
    with Cons.prems have f: "find P xs = Some l" by simp
    from Cons.IH [OF f] obtain i where
      i: "i < length xs" "xs ! i = l" "P l" "\<forall>j<i. \<not> P (xs ! j)" "indexOf xs l = int i" by blast
    from False i(3) have "x \<noteq> l" by auto
    with i False show ?thesis
      by (intro exI [of _ "Suc i"]) (auto simp: nth_Cons' Let_def)
  qed
qed

lemma find_None_all: "find P xs = None \<longleftrightarrow> list_all (\<lambda>x. \<not> P x) xs"
  by (induction xs) auto

lemma addr_test_sound:
  assumes "js_test addr_re s"
  shows "\<exists>x\<in>set s. is_digit x \<or> x = ch CHR '',''"
proof -
  from assms obtain mt where mt: "js_match s addr_re = Some mt" by (auto simp: js_test_def)
  have "wf_regex (pattern addr_re)" by (simp add: addr_re_def)
  from js_match_sound [OF mt this] have s: "s = before mt @ matched mt @ after mt"
    and "(matched mt, captures mt) \<in> sem False (pattern addr_re) []"
    by (simp_all add: addr_re_def)
  from sem_lang [OF this(2)] have l: "matched mt \<in> lang False (pattern addr_re)" .
  from l obtain x where "matched mt = [x]" "is_digit x \<or> x = ch CHR '',''"
    by (auto simp: addr_re_def is_digit_def ch_def)
  with s show ?thesis by (metis in_set_conv_decomp append_Cons)
qed

lemma lines_nonempty: "[] \<notin> set (lines_of t)"
  by (simp add: lines_of_def)

lemma extract_manufacturer_None:
  "find (js_test manuf_re) ls = None \<Longrightarrow> extract_manufacturer ls = (None, None)"
  by (simp add: extract_manufacturer_def)

lemma extract_manufacturer_Some:
  assumes "find (js_test manuf_re) ls = Some l" "[] \<notin> set ls"
  shows "\<exists>i<length ls. ls ! i = l \<and> js_test manuf_re l \<and> (\<forall>j<i. \<not> js_test manuf_re (ls ! j))
           \<and> extract_manufacturer ls =
               (Some (label_stripped l),
                if i + 1 < length ls \<and> js_test addr_re (ls ! (i + 1)) then Some (ls ! (i + 1)) else None)"
proof -
  from find_indexOf [OF assms(1)] obtain i where
    i: "i < length ls" "ls ! i = l" "js_test manuf_re l" "\<forall>j<i. \<not> js_test manuf_re (ls ! j)"
       "indexOf ls l = int i" by blast
  from i(1,2) assms(2) have ne: "l \<noteq> []" by (metis nth_mem)
  have nth: "js_nth ls (int i + 1) = (if i + 1 < length ls then Some (ls ! (i + 1)) else None)"
    by (auto simp: js_nth_def nat_add_distrib)
  have "extract_manufacturer ls =
               (Some (label_stripped l),
                if i + 1 < length ls \<and> js_test addr_re (ls ! (i + 1)) then Some (ls ! (i + 1)) else None)"
    using assms(1) ne i(5) nth
    by (auto simp: extract_manufacturer_def Let_def label_replace to_string_def)
  with i show ?thesis by blast
qed

lemma extract_generic_name_cases:
  "extract_generic_name ls = None \<and> (find (js_test name_re) ls = None \<or> [] \<in> set ls)
   \<or> (\<exists>l\<in>set ls. js_test name_re l \<and> extract_generic_name ls = Some (trim (label_stripped l)))"
proof (cases "find (js_test name_re) ls")
  case None
  then show ?thesis by (simp add: extract_generic_name_def truthy_def)
next
  case (Some l)
  then have "l \<in> set ls" "js_test name_re l" by (auto simp: find_Some_iff)
  with Some show ?thesis
    by (cases "l = []") (auto simp: extract_generic_name_def truthy_def label_replace)
qed


lemma minlen_lang: "w \<in> lang ci r \<Longrightarrow> minlen r \<le> length w"
  by (induction r arbitrary: w) (auto, fastforce+)

lemma mrp_minlen: "minlen (pattern mrp_re) = 2"
  by (simp add: mrp_re_def mrp_prefix_def mrp_amount_def seqs_def str_def)

lemma care_minlen: "minlen care_number = 10"
  by (simp add: care_number_def seqs_def str_def)

lemma extract_mrp_shape:
  assumes "extract_mrp t = Inr (Some s)"
  shows "s \<in> lang True (pattern mrp_re)"
proof (cases "js_match t mrp_re")
  case None
  from extract_mrp_None [OF None] assms show ?thesis by simp
next
  case (Some mt)
  from extract_mrp_Some [OF Some] obtain pfx amt where
    a: "matched mt = pfx @ amt" "pfx \<in> lang True mrp_prefix" "amt \<in> lang True mrp_amount"
       "extract_mrp t = Inr (Some (if rupee \<in> set t then rupee # amt else matched mt))"
    by blast
  have r: "[rupee] \<in> lang True mrp_prefix" by (simp add: mrp_prefix_def)
  have l: "lang True (pattern mrp_re) = {u @ v | u v. u \<in> lang True mrp_prefix \<and> v \<in> lang True mrp_amount}"
    by (simp add: mrp_re_def lang_seqs2)
  show ?thesis
  proof (cases "rupee \<in> set t")
    case True
    with a(4) assms have "s = [rupee] @ amt" by simp
    with r a(3) show ?thesis unfolding l by blast
  next
    case False
    with a(4) assms have "s = pfx @ amt" using a(1) by simp
    with a(2,3) show ?thesis unfolding l by blast
  qed
qed

lemma canonical_nonempty: "s \<in> set canonical_units \<Longrightarrow> s \<noteq> []"
  by (auto simp: canonical_units_def asc_def)

lemma extract_qty_shape:
  assumes "extract_qty t = Inr (q, u)"
  shows "(\<forall>s. q = Some s \<longrightarrow> s \<noteq> [] \<and> js_test numeric_re s)
       \<and> (\<forall>s. u = Some s \<longrightarrow> s \<noteq> [] \<and> s \<in> set canonical_units)"
proof (cases "js_match t qty_re")
  case None
  from extract_qty_None [OF None] assms show ?thesis by simp
next
  case (Some mt)
  from extract_qty_Some [OF Some] obtain n v where
    "n \<in> lang True qty_number" "v \<in> set canonical_units"
    "extract_qty t = Inr (Some (js_replace_all n (ch CHR '','') []), Some v)"
    by blast
  with assms qty_number_numeric [of n True] canonical_nonempty [of v] show ?thesis by auto
qed

lemma extract_month_year_shape:
  assumes "extract_month_year t = Inr (Some s)"
  shows "s \<noteq> [] \<and> (\<exists>mo y. s = mo @ [ch CHR ''/''] @ y \<and> mo \<in> lang False my_month \<and> y \<in> lang False my_year)"
proof (cases "js_match t my_re")
  case None
  from extract_month_year_None [OF None] assms show ?thesis by simp
next
  case (Some mt)
  from extract_month_year_Some [OF Some] assms show ?thesis by auto
qed

lemma extract_consumer_care_shape:
  assumes "extract_consumer_care t = Inr (Some s)"
  shows "s \<noteq> [] \<and> s \<in> lang False care_number"
proof (cases "js_match t care_re")
  case None
  from extract_consumer_care_None [OF None] assms show ?thesis by simp
next
  case (Some mt)
  from extract_consumer_care_Some [OF Some] assms have "s \<in> lang False care_number" by simp
  with minlen_lang [OF this] care_minlen show ?thesis by auto
qed

lemma extract_manufacturer_shape:
  assumes "[] \<notin> set ls"
  shows "(\<forall>s. fst (extract_manufacturer ls) = Some s \<longrightarrow> (\<exists>l\<in>set ls. js_test manuf_re l \<and> s = label_stripped l))
       \<and> (\<forall>s. snd (extract_manufacturer ls) = Some s \<longrightarrow> s \<noteq> [] \<and> (\<exists>x\<in>set s. is_digit x \<or> x = ch CHR '',''))"
proof (cases "find (js_test manuf_re) ls")
  case None
  from extract_manufacturer_None [OF None] show ?thesis by simp
next
  case (Some l)
  from extract_manufacturer_Some [OF Some assms] obtain i where
    i: "i < length ls" "ls ! i = l" "js_test manuf_re l"
       "extract_manufacturer ls =
               (Some (label_stripped l),
                if i + 1 < length ls \<and> js_test addr_re (ls ! (i + 1)) then Some (ls ! (i + 1)) else None)"
    by blast
  from i(1,2) have "l \<in> set ls" by auto
  moreover have "s \<noteq> [] \<and> (\<exists>x\<in>set s. is_digit x \<or> x = ch CHR '','')"
    if "snd (extract_manufacturer ls) = Some s" for s
  proof -
    from that i(4) have a: "i + 1 < length ls" "js_test addr_re (ls ! (i + 1))" "s = ls ! (i + 1)"
      by (auto split: if_splits)
    from a(1,3) assms have "s \<noteq> []" by (metis nth_mem)
    with addr_test_sound [OF a(2)] a(3) show ?thesis by simp
  qed
  ultimately show ?thesis using i(3,4) by auto
qed

section \<open>The rule evaluator's summary\<close>

text \<open>
  Claim C1. For every record of extracted fields, \<^verbatim>\<open>validateLocally\<close> evaluates the
  ten rules in the fixed order; \<open>violations\<close> is the list of the keys of the failing
  rules in that order, \<open>violation_count\<close> is its length, and \<open>compliant\<close> holds
  exactly when \<open>violation_count\<close> is 0.
\<close>

theorem validateLocally_summary:
  "map rule_key (rules (validateLocally ex)) = rule_order
   \<and> violations (summary (validateLocally ex))
       = map rule_key (filter (\<lambda>r. \<not> passed r) (rules (validateLocally ex)))
   \<and> violation_count (summary (validateLocally ex)) = length (violations (summary (validateLocally ex)))
   \<and> (compliant (summary (validateLocally ex)) \<longleftrightarrow> violation_count (summary (validateLocally ex)) = 0)"
  by (simp add: validateLocally_def add_def Let_def rule_order_def)

theorem validateLocally_summary_witness:
  "violations (summary (validateLocally no_fields)) = rule_order
   \<and> violation_count (summary (validateLocally no_fields)) = 10
   \<and> \<not> compliant (summary (validateLocally no_fields))"
  using validateLocally_summary [of no_fields]
  by code_simp

section \<open>The worked example\<close>

text \<open>
  Claim C4. On the label text of the specification's example the extractor returns
  the price with the rupee sign and the digits 199.00, the quantity 250, the unit g,
  a manufacturer name that contains "Acme Foods Ltd", the date 12/2025 and a
  consumer-care number that contains 1800-123-4567.
\<close>

theorem example_label_fields:
  "parseFieldsFromRawText example_label = Inr \<lparr>generic_name = None, mrp = Some (rupee # asc ''199.00''),
        net_quantity = Some (asc ''250''), unit = Some (asc ''g''),
        manufacturer_name = Some (asc ''250 g Mfg by: Acme Foods Ltd 12/2025 Consumer Care: 1800-123-4567''),
        manufacturer_address = None,
        month_year = Some (asc ''12/2025''),
        consumer_care = Some (asc ''1800-123-4567''),
        raw_text = Some example_label\<rparr>
   \<and> js_includes (asc ''250 g Mfg by: Acme Foods Ltd 12/2025 Consumer Care: 1800-123-4567'') (asc ''Acme Foods Ltd'')
   \<and> js_includes (asc ''1800-123-4567'') (asc ''1800-123-4567'')"
  by code_simp

section \<open>Quantity and unit\<close>

text \<open>
  Claim C9. For every input the extractor returns a result whose \<open>net_quantity\<close>
  and \<open>unit\<close> are both present or both absent; a present unit is one of g, kg,
  ml, L, pcs; a present quantity has no comma and passes the test of the rule
  \<^verbatim>\<open>net_quantity_numeric\<close>.
\<close>

theorem quantity_and_unit:
  "\<exists>f. parseFieldsFromRawText raw = Inr f
     \<and> (net_quantity f = None \<longleftrightarrow> unit f = None)
     \<and> (\<forall>u. unit f = Some u \<longrightarrow> u \<in> set canonical_units)
     \<and> (\<forall>q. net_quantity f = Some q \<longrightarrow> ch CHR '','' \<notin> set q \<and> js_test numeric_re q)"
proof -
  from extract_total [of raw] obtain mr my cc where
    e: "extract_mrp raw = Inr mr" "extract_month_year raw = Inr my" "extract_consumer_care raw = Inr cc"
    by blast
  show ?thesis
  proof (cases "js_match raw qty_re")
    case None
    from parse_Inr [OF extract_qty_None [OF None] e] show ?thesis by simp
  next
    case (Some mt)
    from extract_qty_Some [OF Some] obtain n v where
      q: "n \<in> lang True qty_number" "v \<in> set canonical_units"
         "extract_qty raw = Inr (Some (js_replace_all n (ch CHR '','') []), Some v)"
      by blast
    from parse_Inr [OF q(3) e] q(2) qty_number_numeric [OF q(1)] replace_all_no [of "ch CHR '',''" n]
    show ?thesis by simp
  qed
qed

theorem quantity_and_unit_witness:
  "parseFieldsFromRawText (asc ''Net 1,5 KG'') = Inr \<lparr>generic_name = None, mrp = None,
       net_quantity = Some (asc ''15''), unit = Some (asc ''kg''), manufacturer_name = None,
       manufacturer_address = None, month_year = None, consumer_care = None,
       raw_text = Some (asc ''Net 1,5 KG'')\<rparr>
   \<and> asc ''kg'' \<in> set canonical_units
   \<and> ch CHR '','' \<notin> set (asc ''15'') \<and> js_test numeric_re (asc ''15'')"
proof -
  have e: "parseFieldsFromRawText (asc ''Net 1,5 KG'') = Inr \<lparr>generic_name = None, mrp = None,
       net_quantity = Some (asc ''15''), unit = Some (asc ''kg''), manufacturer_name = None,
       manufacturer_address = None, month_year = None, consumer_care = None,
       raw_text = Some (asc ''Net 1,5 KG'')\<rparr>"
    by code_simp
  from quantity_and_unit [of "asc ''Net 1,5 KG''"] e show ?thesis by auto
qed

section \<open>No exception in the extractor and in the evaluator\<close>

text \<open>
  Claim C6. The extractor returns a record on every input, the empty text included:
  each read of an index of a match result, which would throw on \<^verbatim>\<open>null\<close>, is
  behind the test that the match is not \<^verbatim>\<open>null\<close>. On the empty text every field
  but \<open>raw_text\<close> is absent. The evaluator reads fields and tests strings, which
  cannot throw, so its model has no error value: it returns the ten rule results
  for every record, and on the record without fields all ten are failed.
\<close>

theorem extractor_and_evaluator_total:
  "(\<exists>f. parseFieldsFromRawText raw = Inr f)
   \<and> parseFieldsFromRawText [] = Inr (no_fields\<lparr>raw_text := Some []\<rparr>)
   \<and> map rule_key (rules (validateLocally ex)) = rule_order
   \<and> map passed (rules (validateLocally no_fields)) = replicate 10 False"
proof -
  from extract_total [of raw] obtain q u mr my cc where
    "extract_qty raw = Inr (q, u)" "extract_mrp raw = Inr mr"
    "extract_month_year raw = Inr my" "extract_consumer_care raw = Inr cc"
    by blast
  from parse_Inr [OF this] have "\<exists>f. parseFieldsFromRawText raw = Inr f" by blast
  moreover have "parseFieldsFromRawText [] = Inr (no_fields\<lparr>raw_text := Some []\<rparr>)"
    by code_simp
  moreover have "map rule_key (rules (validateLocally ex)) = rule_order"
    by (simp add: validateLocally_def add_def Let_def rule_order_def)
  moreover have "map passed (rules (validateLocally no_fields)) = replicate 10 False"
    by code_simp
  ultimately show ?thesis by blast
qed

theorem extractor_and_evaluator_total_witness:
  "(\<exists>f. parseFieldsFromRawText (asc ''no label here'') = Inr f)
   \<and> map rule_key (rules (validateLocally (no_fields\<lparr>raw_text := Some (asc ''no label here'')\<rparr>))) = rule_order"
  using extractor_and_evaluator_total [of "asc ''no label here''" "no_fields\<lparr>raw_text := Some (asc ''no label here'')\<rparr>"]
  by blast

section \<open>The price\<close>

text \<open>
  Claim C3, as stated: when the price pattern matches, the output is the rupee sign
  and the amount exactly when the rupee sign occurs within the matched text. It
  fails on the text "Rs. 100 (R)", R the rupee sign: the match is "Rs. 100", the
  rupee sign is outside of it, and the output is the rupee sign and 100.
\<close>

theorem mrp_rupee_outside_match:
  "js_match (normalize_text rs_then_rupee) mrp_re
     = Some \<lparr>before = [], matched = asc ''Rs. 100'', after = asc '' ('' @ [rupee] @ asc '')'',
             captures = [(1, asc ''100'')]\<rparr>
   \<and> \<not> js_includes (asc ''Rs. 100'') [rupee]
   \<and> parseFieldsFromRawText rs_then_rupee = Inr \<lparr>generic_name = None, mrp = Some (rupee # asc ''100''),
       net_quantity = None, unit = None, manufacturer_name = None,
       manufacturer_address = None, month_year = None, consumer_care = None,
       raw_text = Some rs_then_rupee\<rparr>"
  by code_simp

text \<open>
  Claim C3, amended: when the price pattern matches, the output is the rupee sign
  followed by the captured amount exactly when the rupee sign occurs anywhere in the
  input text, and the matched text unchanged otherwise.
\<close>

theorem mrp_normalized:
  assumes "js_match (normalize_text raw) mrp_re = Some mt"
  shows "\<exists>f amt. parseFieldsFromRawText raw = Inr f \<and> map_of (captures mt) 1 = Some amt
           \<and> (rupee \<in> set raw \<longrightarrow> mrp f = Some (rupee # amt))
           \<and> (rupee \<notin> set raw \<longrightarrow> mrp f = Some (matched mt) \<and> matched mt \<noteq> rupee # amt)"
proof -
  from assms have mt: "js_match raw mrp_re = Some mt" by (simp add: normalize_text_id)
  from extract_mrp_Some [OF mt] obtain amt where
    a: "map_of (captures mt) 1 = Some amt"
       "extract_mrp raw = Inr (Some (if rupee \<in> set raw then rupee # amt else matched mt))"
    by blast
  from extract_total [of raw] obtain q u my cc where
    e: "extract_qty raw = Inr (q, u)" "extract_month_year raw = Inr my" "extract_consumer_care raw = Inr cc"
    by blast
  from js_match_sound [OF mt ng_mrp(3)] have "set (matched mt) \<subseteq> set raw"
    by (metis Un_iff set_append subsetI)
  then have "rupee \<notin> set raw \<Longrightarrow> matched mt \<noteq> rupee # amt" by auto
  with parse_Inr [OF e(1) a(2) e(2) e(3)] a(1) show ?thesis by auto
qed

theorem mrp_normalized_witness:
  "js_match (normalize_text (asc ''Rs. 100'')) mrp_re
     = Some \<lparr>before = [], matched = asc ''Rs. 100'', after = [], captures = [(1, asc ''100'')]\<rparr>
   \<and> rupee \<notin> set (asc ''Rs. 100'')
   \<and> parseFieldsFromRawText (asc ''Rs. 100'') = Inr \<lparr>generic_name = None, mrp = Some (asc ''Rs. 100''),
       net_quantity = None, unit = None, manufacturer_name = None,
       manufacturer_address = None, month_year = None, consumer_care = None,
       raw_text = Some (asc ''Rs. 100'')\<rparr>
   \<and> js_match (normalize_text rs_then_rupee) mrp_re
     = Some \<lparr>before = [], matched = asc ''Rs. 100'', after = asc '' ('' @ [rupee] @ asc '')'',
             captures = [(1, asc ''100'')]\<rparr>
   \<and> rupee \<in> set rs_then_rupee
   \<and> map_sum id mrp (parseFieldsFromRawText rs_then_rupee) = Inr (Some (rupee # asc ''100''))"
proof -
  have mt: "js_match (normalize_text (asc ''Rs. 100'')) mrp_re
     = Some \<lparr>before = [], matched = asc ''Rs. 100'', after = [], captures = [(1, asc ''100'')]\<rparr>"
    "js_match (normalize_text rs_then_rupee) mrp_re
     = Some \<lparr>before = [], matched = asc ''Rs. 100'', after = asc '' ('' @ [rupee] @ asc '')'',
             captures = [(1, asc ''100'')]\<rparr>"
    by code_simp+
  have e: "parseFieldsFromRawText (asc ''Rs. 100'') = Inr \<lparr>generic_name = None, mrp = Some (asc ''Rs. 100''),
       net_quantity = None, unit = None, manufacturer_name = None,
       manufacturer_address = None, month_year = None, consumer_care = None,
       raw_text = Some (asc ''Rs. 100'')\<rparr>"
    by code_simp
  have r: "rupee \<notin> set (asc ''Rs. 100'')" "rupee \<in> set rs_then_rupee" by code_simp+
  from mrp_normalized [OF mt(1)] mrp_normalized [OF mt(2)] mt e r show ?thesis by auto
qed

section \<open>The similarity of two hashes\<close>

text \<open>
  Claim C7. For the hashes of two images (64 grey values each), the Hamming distance
  is returned, it is the number of one bits of the XOR of the hashes and lies
  between 0 and 64, so the similarity \<open>1 - distance / 64\<close> lies between 0 and 1,
  as does the similarity returned after rounding; distance and result are the
  same with the two hashes exchanged; a hash has distance 0 and similarity 1 to
  itself.
\<close>

theorem hash_similarity:
  assumes "length g1 = 64" "length g2 = 64"
  shows "\<exists>d r. hammingDistanceHashBigInt (hash_bits g1 a1) (hash_bits g2 a2) = Some d
     \<and> d = popcount (hash_bits g1 a1 XOR hash_bits g2 a2) \<and> d \<le> 64
     \<and> 0 \<le> 1 - rat_of_nat d / 64 \<and> 1 - rat_of_nat d / 64 \<le> 1
     \<and> hammingDistanceHashBigInt (hash_bits g2 a2) (hash_bits g1 a1) = Some d
     \<and> cvSimilarityClient (hash_bits g1 a1) (hash_bits g2 a2) = Some r
     \<and> cvSimilarityClient (hash_bits g2 a2) (hash_bits g1 a1) = Some r
     \<and> 0 \<le> similarity r \<and> similarity r \<le> 1
     \<and> hammingDistanceHashBigInt (hash_bits g1 a1) (hash_bits g1 a1) = Some 0
     \<and> map_option similarity (cvSimilarityClient (hash_bits g1 a1) (hash_bits g1 a1)) = Some 1"
proof -
  let ?h1 = "hash_bits g1 a1" and ?h2 = "hash_bits g2 a2"
  let ?d = "popcount (?h1 XOR ?h2)"
  have h1: "0 \<le> ?h1" "?h1 < 2 ^ 64" and h2: "0 \<le> ?h2" "?h2 < 2 ^ 64"
    using hash_bits_range [of g1 a1] hash_bits_range [of g2 a2] assms by simp_all
  note ab = cvSimilarityClient_result [OF h1 h2]
  note ba = cvSimilarityClient_result [OF h2 h1, unfolded xor.commute [of ?h2 ?h1]]
  from ab have u: "0 \<le> 1 - rat_of_nat ?d / 64" "1 - rat_of_nat ?d / 64 \<le> 1" by simp_all
  from cvSimilarityClient_result [OF h1 h1] have
    self: "hammingDistanceHashBigInt ?h1 ?h1 = Some 0"
          "map_option similarity (cvSimilarityClient ?h1 ?h1) = Some 1"
    by (simp_all add: popcount_0 toFixed2_one)
  from ab ba u self toFixed2_unit [OF u] show ?thesis by simp
qed

theorem hash_similarity_witness:
  "length (replicate 64 (1 :: rat)) = 64 \<and> length (replicate 63 (0 :: rat) @ [2]) = 64
   \<and> hammingDistanceHashBigInt (hash_bits (replicate 64 1) 1) (hash_bits (replicate 63 0 @ [2]) 1) = Some 63
   \<and> hammingDistanceHashBigInt (hash_bits (replicate 63 0 @ [2]) 1) (hash_bits (replicate 64 1) 1) = Some 63
   \<and> hammingDistanceHashBigInt (hash_bits (replicate 64 1) 1) (hash_bits (replicate 64 1) 1) = Some 0"
proof -
  have l: "length (replicate 64 (1 :: rat)) = 64" "length (replicate 63 (0 :: rat) @ [2]) = 64" by simp_all
  from hash_similarity [OF l, of 1 1] l popcount_example show ?thesis by auto
qed

section \<open>The verdict\<close>

text \<open>
  Claim C5. \<open>verdict_of\<close> is the mapping of the specification: from 0.85 on
  \<^verbatim>\<open>likely_match\<close>, from 0.70 up to 0.85 \<^verbatim>\<open>likely_match_with_warnings\<close>, below 0.70
  \<^verbatim>\<open>mismatch\<close>, the bounds 0.85 and 0.70 included, 0.6999 a mismatch. In both
  strategies the verdict returned is \<open>verdict_of\<close> of the similarity returned; in
  strategy A, where the verdict is computed before the similarity is rounded, it is
  also \<open>verdict_of\<close> of the similarity before rounding.
\<close>

theorem verdict_thresholds:
  "(s \<ge> 85 / 100 \<longrightarrow> verdict_of s = ''likely_match'')
   \<and> (7 / 10 \<le> s \<and> s < 85 / 100 \<longrightarrow> verdict_of s = ''likely_match_with_warnings'')
   \<and> (s < 7 / 10 \<longrightarrow> verdict_of s = ''mismatch'')
   \<and> verdict_of (85 / 100) = ''likely_match''
   \<and> verdict_of (70 / 100) = ''likely_match_with_warnings''
   \<and> verdict_of (6999 / 10000) = ''mismatch''
   \<and> (0 \<le> h1 \<and> h1 < 2 ^ 64 \<and> 0 \<le> h2 \<and> h2 < 2 ^ 64 \<longrightarrow>
        (\<exists>r d. cvSimilarityClient h1 h2 = Some r \<and> hammingDistanceHashBigInt h1 h2 = Some d
           \<and> verdict r = verdict_of (1 - of_nat d / 64) \<and> verdict r = verdict_of (similarity r)))
   \<and> (\<exists>r. googleCVSimilarity rt (Some a) (Some b) = Inr r \<and> verdict r = verdict_of (similarity r))"
proof -
  have A: "\<exists>r d. cvSimilarityClient h1 h2 = Some r \<and> hammingDistanceHashBigInt h1 h2 = Some d
           \<and> verdict r = verdict_of (1 - of_nat d / 64) \<and> verdict r = verdict_of (similarity r)"
    if h: "0 \<le> h1 \<and> h1 < 2 ^ 64 \<and> 0 \<le> h2 \<and> h2 < 2 ^ 64"
  proof -
    from h have c: "hammingDistanceHashBigInt h1 h2 = Some (popcount (h1 XOR h2))" "popcount (h1 XOR h2) \<le> 64"
      "cvSimilarityClient h1 h2 = Some \<lparr>similarity = toFixed2 (1 - of_nat (popcount (h1 XOR h2)) / 64),
                 flags = [(''packaging_layout_diff'', popcount (h1 XOR h2) > 0)],
                 verdict = verdict_of (1 - of_nat (popcount (h1 XOR h2)) / 64)\<rparr>"
      using cvSimilarityClient_result [of h1 h2] by simp_all
    from c(2) have "popcount (h1 XOR h2) \<in> set [0..<65]" by simp
    with rounding_keeps_verdict have
      "verdict_of (toFixed2 (1 - of_nat (popcount (h1 XOR h2)) / 64)) = verdict_of (1 - of_nat (popcount (h1 XOR h2)) / 64)"
      unfolding list_all_iff by blast
    with c show ?thesis by simp
  qed
  have B: "\<exists>r. googleCVSimilarity rt (Some a) (Some b) = Inr r \<and> verdict r = verdict_of (similarity r)"
    by (auto simp: googleCVSimilarity_def verdict_of_def Let_def)
  have C: "verdict_of (85 / 100) = ''likely_match''" "verdict_of (70 / 100) = ''likely_match_with_warnings''"
    "verdict_of (6999 / 10000) = ''mismatch''"
    by (simp_all add: verdict_of_def)
  have D: "(s \<ge> 85 / 100 \<longrightarrow> verdict_of s = ''likely_match'')
   \<and> (7 / 10 \<le> s \<and> s < 85 / 100 \<longrightarrow> verdict_of s = ''likely_match_with_warnings'')
   \<and> (s < 7 / 10 \<longrightarrow> verdict_of s = ''mismatch'')"
    by (auto simp: verdict_of_def)
  from A B C D show ?thesis by blast
qed

theorem verdict_thresholds_witness:
  "(86 / 100 \<ge> (85 / 100 :: rat)) \<and> verdict_of (86 / 100) = ''likely_match''
   \<and> (7 / 10 \<le> (3 / 4 :: rat) \<and> (3 / 4 :: rat) < 85 / 100) \<and> verdict_of (3 / 4) = ''likely_match_with_warnings''
   \<and> ((1 / 2 :: rat) < 7 / 10) \<and> verdict_of (1 / 2) = ''mismatch''
   \<and> (0 :: int) \<le> 0 \<and> (0 :: int) < 2 ^ 64 \<and> (0 :: int) \<le> 255 \<and> (255 :: int) < 2 ^ 64
   \<and> hammingDistanceHashBigInt 0 255 = Some 8
   \<and> map_option verdict (cvSimilarityClient 0 255) = Some ''likely_match''"
proof -
  have p: "popcount (0 XOR 255) = 8" by code_simp
  have b: "(0 :: int) \<le> 0" "(0 :: int) < 2 ^ 64" "(0 :: int) \<le> 255" "(255 :: int) < 2 ^ 64" by simp_all
  from hamming_distance [OF b] p have d: "hammingDistanceHashBigInt 0 255 = Some 8" by simp
  have v: "verdict_of (1 - of_nat 8 / 64) = ''likely_match''" by (simp add: verdict_of_def)
  from verdict_thresholds [of "86 / 100" 0 255 example_rt no_annotations no_annotations]
    verdict_thresholds [of "3 / 4" 0 255 example_rt no_annotations no_annotations]
    verdict_thresholds [of "1 / 2" 0 255 example_rt no_annotations no_annotations] b d v
  show ?thesis by auto
qed

section \<open>The combined similarity of strategy B\<close>

text \<open>
  Claim C8, as stated: the similarity of strategy B is 0.7 times the Jaccard index
  of the sets of lower-cased labels plus 0.3 times the palette similarity, rounded
  to two decimals. It fails on the labels "Bottle", "Drink" and "bottle", "Glass",
  "Plastic" without colours: the Jaccard index is 1/4 and the palette similarity is
  0, so that the formula gives 0.175, which rounds to 0.18, and the code returns
  0.17. The double nearest to 0.7 is below 0.7, its product with 1/4 is exact and
  below 0.175, and \<^verbatim>\<open>toFixed(2)\<close> rounds the double it is given.
\<close>

theorem product_below_half:
  "googleCVSimilarity (ieee toLowerCase) (Some quarter_ref) (Some quarter_user)
       = Inr \<lparr>similarity = 17 / 100, flags = [(''packaging_layout_diff'', True), (''logo_mismatch'', True)],
              verdict = ''mismatch''\<rparr>
   \<and> labels_of (ieee toLowerCase) quarter_ref = [asc ''bottle'', asc ''drink'']
   \<and> labels_of (ieee toLowerCase) quarter_user = [asc ''bottle'', asc ''glass'', asc ''plastic'']
   \<and> jaccard (set (labels_of (ieee toLowerCase) quarter_ref)) (set (labels_of (ieee toLowerCase) quarter_user)) = 1 / 4
   \<and> paletteSimilarity (ieee toLowerCase) (colors_of quarter_ref) (colors_of quarter_user) = 0
   \<and> toFixed2 (7 / 10 * (1 / 4) + 3 / 10 * 0) = 18 / 100"
  by code_simp

text \<open>
  Claim C8, amended: for every two responses, the similarity returned by strategy B
  is the sum, in doubles, of the products of the label similarity with the double
  0.7 and of the palette similarity of the first five colours with the double 0.3,
  rounded to two decimals. It is a number of two decimals and differs from 0.7
  times the Jaccard index of the sets of lower-cased labels plus 0.3 times the
  palette similarity \<open>C\<close> by at most \<open>0.005 + (1 + \<bar>C\<bar>) / 10\<^sup>1\<^sup>5\<close>: one half of a
  hundredth for the rounding to two decimals, the rest for the roundings of the
  quotient, of the two weights, of the two products and of the sum. The label
  similarity is the Jaccard index up to the rounding of the quotient; it is 0 for
  two empty label sets, the code dividing only when the union is not empty, and the
  palette similarity is 0 when either palette is empty.
\<close>

theorem combined_similarity_doubles:
  "\<exists>res. googleCVSimilarity (ieee lc) (Some r) (Some u) = Inr res
     \<and> similarity res
         = toFixed2 (fl (fl (labelSim (ieee lc) r u * double_0_7) + fl (colorSim (ieee lc) r u * double_0_3)))
     \<and> (\<exists>n :: int. similarity res = of_int n / 100)
     \<and> \<bar>similarity res
          - (7 / 10 * jaccard (set (labels_of (ieee lc) r)) (set (labels_of (ieee lc) u))
             + 3 / 10 * colorSim (ieee lc) r u)\<bar>
         \<le> 1 / 200 + (1 + \<bar>colorSim (ieee lc) r u\<bar>) / 10 ^ 15
     \<and> \<bar>labelSim (ieee lc) r u - jaccard (set (labels_of (ieee lc) r)) (set (labels_of (ieee lc) u))\<bar>
         \<le> jaccard (set (labels_of (ieee lc) r)) (set (labels_of (ieee lc) u)) / 10 ^ 15
     \<and> (labels_of (ieee lc) r = [] \<and> labels_of (ieee lc) u = [] \<longrightarrow> labelSim (ieee lc) r u = 0)
     \<and> (colors_of r = [] \<or> colors_of u = [] \<longrightarrow> colorSim (ieee lc) r u = 0)"
proof -
  define l where "l = labelSim (ieee lc) r u"
  define c where "c = colorSim (ieee lc) r u"
  define j where "j = jaccard (set (labels_of (ieee lc) r)) (set (labels_of (ieee lc) u))"
  define s where "s = toFixed2 (fl_add (ieee lc) (fl_mul (ieee lc) l (7 / 10)) (fl_mul (ieee lc) c (3 / 10)))"
  have li: "l = jaccard_index (ieee lc) (set (labels_of (ieee lc) r)) (set (labels_of (ieee lc) u))"
    unfolding l_def
    using jaccard_refines [OF new_Set(1) new_Set(1), of "ieee lc" "labels_of (ieee lc) r" "labels_of (ieee lc) u"]
    by (simp add: new_Set(2))
  then have "rel_err (compose_err (compose_err unit_roundoff (2 * unit_roundoff)) unit_roundoff) j l"
    unfolding j_def by (simp add: jaccard_index_err)
  from weighted_sum_err [OF this, of lc c] jaccard_unit [of "set (labels_of (ieee lc) r)" "set (labels_of (ieee lc) u)"]
  have b: "\<bar>s - (7 / 10 * j + 3 / 10 * c)\<bar> \<le> 1 / 200 + (1 + \<bar>c\<bar>) / 10 ^ 15"
    by (simp add: s_def j_def)
  have q: "\<bar>l - j\<bar> \<le> j / 10 ^ 15"
    unfolding li j_def by (rule label_similarity_err) simp_all
  have h: "\<exists>n :: int. s = of_int n / 100" unfolding s_def by (rule toFixed2_hundredths)
  have d: "s = toFixed2 (fl (fl (l * double_0_7) + fl (c * double_0_3)))"
    unfolding s_def
    by (subst weighted_sum_doubles) (simp_all add: l_def c_def jaccardSimilarity_double paletteSimilarity_double)
  have e: "labels_of (ieee lc) r = [] \<and> labels_of (ieee lc) u = [] \<longrightarrow> l = 0"
    by (simp add: l_def new_Set_def jaccardSimilarity_def)
  have p: "colors_of r = [] \<or> colors_of u = [] \<longrightarrow> c = 0"
    unfolding c_def by (auto simp: palette_empty)
  have "\<exists>res. googleCVSimilarity (ieee lc) (Some r) (Some u) = Inr res \<and> similarity res = s"
    by (simp add: googleCVSimilarity_def Let_def s_def l_def c_def)
  then obtain res where res: "googleCVSimilarity (ieee lc) (Some r) (Some u) = Inr res" "similarity res = s"
    by blast
  show ?thesis
    using res b q h d e p unfolding l_def c_def j_def by (intro exI [of _ res]) simp
qed

theorem combined_similarity_doubles_witness:
  "labels_of (ieee toLowerCase) no_annotations = [] \<and> colors_of no_annotations = []
   \<and> googleCVSimilarity (ieee toLowerCase) (Some no_annotations) (Some no_annotations)
       = Inr \<lparr>similarity = 0, flags = [(''packaging_layout_diff'', True), (''logo_mismatch'', True)],
              verdict = ''mismatch''\<rparr>
   \<and> labelSim (ieee toLowerCase) no_annotations no_annotations = 0
   \<and> colorSim (ieee toLowerCase) no_annotations no_annotations = 0
   \<and> googleCVSimilarity (ieee toLowerCase) (Some two_labels) (Some two_labels)
       = Inr \<lparr>similarity = 7 / 10, flags = [(''packaging_layout_diff'', True), (''logo_mismatch'', False)],
              verdict = ''likely_match_with_warnings''\<rparr>
   \<and> jaccard (set (labels_of (ieee toLowerCase) two_labels)) (set (labels_of (ieee toLowerCase) two_labels)) = 1
   \<and> labelSim (ieee toLowerCase) two_labels two_labels = 1
   \<and> toFixed2 (fl (fl (1 * double_0_7) + fl (0 * double_0_3))) = 7 / 10"
proof -
  have e: "labels_of (ieee toLowerCase) no_annotations = []" "colors_of no_annotations = []"
    "googleCVSimilarity (ieee toLowerCase) (Some no_annotations) (Some no_annotations)
       = Inr \<lparr>similarity = 0, flags = [(''packaging_layout_diff'', True), (''logo_mismatch'', True)],
              verdict = ''mismatch''\<rparr>"
    "googleCVSimilarity (ieee toLowerCase) (Some two_labels) (Some two_labels)
       = Inr \<lparr>similarity = 7 / 10, flags = [(''packaging_layout_diff'', True), (''logo_mismatch'', False)],
              verdict = ''likely_match_with_warnings''\<rparr>"
    "jaccard (set (labels_of (ieee toLowerCase) two_labels)) (set (labels_of (ieee toLowerCase) two_labels)) = 1"
    "labelSim (ieee toLowerCase) two_labels two_labels = 1"
    "colors_of two_labels = []"
    by code_simp+
  from combined_similarity_doubles [of toLowerCase no_annotations no_annotations]
    combined_similarity_doubles [of toLowerCase two_labels two_labels] e
  show ?thesis by auto
qed

section \<open>Manufacturer name and address\<close>

lemma label_stripped_no_colon: "ch CHR '':'' \<notin> set l \<Longrightarrow> label_stripped l = l"
  by (simp add: label_stripped_def)

lemma label_stripped_plain:
  assumes "ch CHR '':'' \<in> set l" "list_all (\<lambda>x. \<not> is_line_terminator x) (before_first_colon l)"
  shows "label_stripped l = dropWhile is_space (after_first_colon l)"
proof -
  from assms(2) have "dropWhile (\<lambda>x. \<not> is_line_terminator x) (rev (takeWhile (\<lambda>x. x \<noteq> ch CHR '':'') l)) = []"
    by (simp add: before_first_colon_def list_all_iff)
  with assms(1) show ?thesis
    by (simp add: label_stripped_def after_first_colon_def Let_def)
qed

text \<open>
  Claim C10, as stated: when the address is present, the name is the
  manufacturer line with everything up to its first colon stripped. It fails on the
  two lines "x", carriage return, "Mfg by: Acme" and "12, Road" (a carriage return
  alone does not end a line): the address is "12, Road", the line with everything
  up to its first colon stripped is " Acme", and the name is "x", carriage return,
  "Acme": the whitespace after the colon is stripped as well, and what precedes the
  carriage return is kept.
\<close>

theorem name_keeps_text_before_colon:
  "parseFieldsFromRawText cr_before_label = Inr \<lparr>generic_name = None, mrp = None,
       net_quantity = None, unit = None,
       manufacturer_name = Some (asc ''x'' @ [13] @ asc ''Acme''),
       manufacturer_address = Some (asc ''12, Road''), month_year = None, consumer_care = None,
       raw_text = Some cr_before_label\<rparr>
   \<and> lines_of (normalize_text cr_before_label) = [asc ''x'' @ [13] @ asc ''Mfg by: Acme'', asc ''12, Road'']
   \<and> after_first_colon (asc ''x'' @ [13] @ asc ''Mfg by: Acme'') = asc '' Acme''"
  by code_simp

text \<open>
  Claim C10, amended: when the address is present, a manufacturer line was found,
  the first one of the trimmed non-empty lines, and the name is set. The name is
  the whole line when the line has no colon, and what follows the first colon
  without its leading whitespace when the line has a colon and no line terminator
  before it. The address is the next of the trimmed non-empty lines, and it
  contains a digit or a comma.
\<close>

theorem address_follows_manufacturer_line:
  assumes "parseFieldsFromRawText raw = Inr f" "manufacturer_address f = Some a"
  shows "\<exists>i n. i + 1 < length (lines_of raw)
           \<and> js_test manuf_re (lines_of raw ! i) \<and> (\<forall>j<i. \<not> js_test manuf_re (lines_of raw ! j))
           \<and> manufacturer_name f = Some n
           \<and> (ch CHR '':'' \<notin> set (lines_of raw ! i) \<longrightarrow> n = lines_of raw ! i)
           \<and> (ch CHR '':'' \<in> set (lines_of raw ! i)
                \<and> list_all (\<lambda>x. \<not> is_line_terminator x) (before_first_colon (lines_of raw ! i)) \<longrightarrow>
                n = dropWhile is_space (after_first_colon (lines_of raw ! i)))
           \<and> a = lines_of raw ! (i + 1)
           \<and> (\<exists>x\<in>set a. is_digit x \<or> x = ch CHR '','')"
proof -
  from extract_total [of raw] obtain q u mr my cc where
    e: "extract_qty raw = Inr (q, u)" "extract_mrp raw = Inr mr"
    "extract_month_year raw = Inr my" "extract_consumer_care raw = Inr cc"
    by blast
  from parse_Inr [OF e] assms have
    f: "manufacturer_name f = fst (extract_manufacturer (lines_of raw))"
       "snd (extract_manufacturer (lines_of raw)) = Some a"
    by auto
  show ?thesis
  proof (cases "find (js_test manuf_re) (lines_of raw)")
    case None
    from extract_manufacturer_None [OF None] f(2) show ?thesis by simp
  next
    case (Some l)
    from extract_manufacturer_Some [OF Some lines_nonempty] obtain i where
      i: "i < length (lines_of raw)" "lines_of raw ! i = l" "js_test manuf_re l"
         "\<forall>j<i. \<not> js_test manuf_re (lines_of raw ! j)"
         "extract_manufacturer (lines_of raw) =
               (Some (label_stripped l),
                if i + 1 < length (lines_of raw) \<and> js_test addr_re (lines_of raw ! (i + 1))
                then Some (lines_of raw ! (i + 1)) else None)"
      by blast
    from i(5) f(2) have a: "i + 1 < length (lines_of raw)" "js_test addr_re (lines_of raw ! (i + 1))"
      "a = lines_of raw ! (i + 1)"
      by (auto split: if_splits)
    from addr_test_sound [OF a(2)] a(3) have d: "\<exists>x\<in>set a. is_digit x \<or> x = ch CHR '',''" by simp
    from i(5) f(1) have n: "manufacturer_name f = Some (label_stripped l)" by simp
    have p: "ch CHR '':'' \<notin> set l \<longrightarrow> label_stripped l = l"
      by (simp add: label_stripped_no_colon)
    have c: "ch CHR '':'' \<in> set l \<and> list_all (\<lambda>x. \<not> is_line_terminator x) (before_first_colon l) \<longrightarrow>
             label_stripped l = dropWhile is_space (after_first_colon l)"
      by (simp add: label_stripped_plain)
    from i(2,3,4) a(1,3) d n p c show ?thesis
      by (intro exI [of _ i] exI [of _ "label_stripped l"]) simp
  qed
qed

theorem address_follows_manufacturer_line_witness:
  "parseFieldsFromRawText (asc ''Mfg by: Acme'' @ [10] @ asc ''12, Road'') = Inr \<lparr>generic_name = None, mrp = None,
       net_quantity = None, unit = None,
       manufacturer_name = Some (asc ''Acme''),
       manufacturer_address = Some (asc ''12, Road''), month_year = None, consumer_care = None,
       raw_text = Some (asc ''Mfg by: Acme'' @ [10] @ asc ''12, Road'')\<rparr>
   \<and> lines_of (asc ''Mfg by: Acme'' @ [10] @ asc ''12, Road'') = [asc ''Mfg by: Acme'', asc ''12, Road'']
   \<and> ch CHR '':'' \<in> set (asc ''Mfg by: Acme'')
   \<and> list_all (\<lambda>x. \<not> is_line_terminator x) (before_first_colon (asc ''Mfg by: Acme''))
   \<and> dropWhile is_space (after_first_colon (asc ''Mfg by: Acme'')) = asc ''Acme''
   \<and> (\<exists>x\<in>set (asc ''12, Road''). is_digit x \<or> x = ch CHR '','')
   \<and> parseFieldsFromRawText (asc ''Packer Acme'' @ [10] @ asc ''12, Road'') = Inr \<lparr>generic_name = None, mrp = None,
       net_quantity = None, unit = None,
       manufacturer_name = Some (asc ''Packer Acme''),
       manufacturer_address = Some (asc ''12, Road''), month_year = None, consumer_care = None,
       raw_text = Some (asc ''Packer Acme'' @ [10] @ asc ''12, Road'')\<rparr>
   \<and> lines_of (asc ''Packer Acme'' @ [10] @ asc ''12, Road'') = [asc ''Packer Acme'', asc ''12, Road'']
   \<and> ch CHR '':'' \<notin> set (asc ''Packer Acme'')"
proof -
  have e: "parseFieldsFromRawText (asc ''Mfg by: Acme'' @ [10] @ asc ''12, Road'') = Inr \<lparr>generic_name = None, mrp = None,
       net_quantity = None, unit = None,
       manufacturer_name = Some (asc ''Acme''),
       manufacturer_address = Some (asc ''12, Road''), month_year = None, consumer_care = None,
       raw_text = Some (asc ''Mfg by: Acme'' @ [10] @ asc ''12, Road'')\<rparr>"
    "lines_of (asc ''Mfg by: Acme'' @ [10] @ asc ''12, Road'') = [asc ''Mfg by: Acme'', asc ''12, Road'']"
    "ch CHR '':'' \<in> set (asc ''Mfg by: Acme'')"
    "list_all (\<lambda>x. \<not> is_line_terminator x) (before_first_colon (asc ''Mfg by: Acme''))"
    "dropWhile is_space (after_first_colon (asc ''Mfg by: Acme'')) = asc ''Acme''"
    by code_simp+
  have p: "parseFieldsFromRawText (asc ''Packer Acme'' @ [10] @ asc ''12, Road'') = Inr \<lparr>generic_name = None, mrp = None,
       net_quantity = None, unit = None,
       manufacturer_name = Some (asc ''Packer Acme''),
       manufacturer_address = Some (asc ''12, Road''), month_year = None, consumer_care = None,
       raw_text = Some (asc ''Packer Acme'' @ [10] @ asc ''12, Road'')\<rparr>"
    "lines_of (asc ''Packer Acme'' @ [10] @ asc ''12, Road'') = [asc ''Packer Acme'', asc ''12, Road'']"
    "ch CHR '':'' \<notin> set (asc ''Packer Acme'')"
    by code_simp+
  from address_follows_manufacturer_line [OF e(1)] address_follows_manufacturer_line [OF p(1)] e p
  show ?thesis by auto
qed

section \<open>The shape of the extracted fields\<close>

text \<open>
  Claim C2, as stated: every optional field is absent or a non-empty string. It
  fails on the text "Mfg by:", where the manufacturer name is the empty string.
\<close>

theorem empty_manufacturer_name:
  "parseFieldsFromRawText (asc ''Mfg by:'') = Inr \<lparr>generic_name = None, mrp = None,
       net_quantity = None, unit = None, manufacturer_name = Some [],
       manufacturer_address = None, month_year = None, consumer_care = None,
       raw_text = Some (asc ''Mfg by:'')\<rparr>"
  by code_simp

text \<open>
  Claim C2, amended: for every input, \<open>raw_text\<close> is the input; each of the price,
  the quantity, the unit, the address, the date and the consumer-care number is
  absent or a non-empty string of its shape (a word of the price pattern; a number
  that passes the numeric rule; a canonical unit; a line with a digit or a comma; a
  month, a slash and a year; a word of the consumer-care pattern); the manufacturer
  name and the generic name are absent or what is left of a matching line after its
  label, which may be the empty string; and when no pattern matches, every optional
  field is absent.
\<close>

theorem extracted_fields_shape:
  "\<exists>f. parseFieldsFromRawText raw = Inr f \<and> raw_text f = Some raw
     \<and> (\<forall>s. mrp f = Some s \<longrightarrow> s \<noteq> [] \<and> s \<in> lang True (pattern mrp_re))
     \<and> (\<forall>s. net_quantity f = Some s \<longrightarrow> s \<noteq> [] \<and> js_test numeric_re s)
     \<and> (\<forall>s. unit f = Some s \<longrightarrow> s \<noteq> [] \<and> s \<in> set canonical_units)
     \<and> (\<forall>s. manufacturer_address f = Some s \<longrightarrow> s \<noteq> [] \<and> (\<exists>x\<in>set s. is_digit x \<or> x = ch CHR '',''))
     \<and> (\<forall>s. month_year f = Some s \<longrightarrow> s \<noteq> []
            \<and> (\<exists>mo y. s = mo @ [ch CHR ''/''] @ y \<and> mo \<in> lang False my_month \<and> y \<in> lang False my_year))
     \<and> (\<forall>s. consumer_care f = Some s \<longrightarrow> s \<noteq> [] \<and> s \<in> lang False care_number)
     \<and> (\<forall>s. manufacturer_name f = Some s \<longrightarrow>
            (\<exists>l\<in>set (lines_of raw). js_test manuf_re l \<and> s = label_stripped l))
     \<and> (\<forall>s. generic_name f = Some s \<longrightarrow>
            (\<exists>l\<in>set (lines_of raw). js_test name_re l \<and> s = trim (label_stripped l)))
     \<and> (no_recognizable_patterns raw \<longrightarrow>
           generic_name f = None \<and> mrp f = None \<and> net_quantity f = None \<and> unit f = None
           \<and> manufacturer_name f = None \<and> manufacturer_address f = None
           \<and> month_year f = None \<and> consumer_care f = None)"
proof -
  from extract_total [of raw] obtain q u mr my cc where
    e: "extract_qty raw = Inr (q, u)" "extract_mrp raw = Inr mr"
    "extract_month_year raw = Inr my" "extract_consumer_care raw = Inr cc"
    by blast
  let ?f = "\<lparr>generic_name = extract_generic_name (lines_of raw), mrp = mr, net_quantity = q, unit = u,
     manufacturer_name = fst (extract_manufacturer (lines_of raw)),
     manufacturer_address = snd (extract_manufacturer (lines_of raw)),
     month_year = my, consumer_care = cc, raw_text = Some raw\<rparr>"
  note p = parse_Inr [OF e]
  have 1: "\<forall>s. mrp ?f = Some s \<longrightarrow> s \<noteq> [] \<and> s \<in> lang True (pattern mrp_re)"
  proof (intro allI impI)
    fix s assume "mrp ?f = Some s"
    with e(2) have "extract_mrp raw = Inr (Some s)" by simp
    from extract_mrp_shape [OF this] have "s \<in> lang True (pattern mrp_re)" .
    with minlen_lang [OF this] mrp_minlen show "s \<noteq> [] \<and> s \<in> lang True (pattern mrp_re)" by auto
  qed
  have 2: "(\<forall>s. net_quantity ?f = Some s \<longrightarrow> s \<noteq> [] \<and> js_test numeric_re s)
       \<and> (\<forall>s. unit ?f = Some s \<longrightarrow> s \<noteq> [] \<and> s \<in> set canonical_units)"
    using extract_qty_shape [OF e(1)] by simp
  have 3: "\<forall>s. month_year ?f = Some s \<longrightarrow> s \<noteq> []
            \<and> (\<exists>mo y. s = mo @ [ch CHR ''/''] @ y \<and> mo \<in> lang False my_month \<and> y \<in> lang False my_year)"
    using extract_month_year_shape [of raw] e(3) by simp
  have 4: "\<forall>s. consumer_care ?f = Some s \<longrightarrow> s \<noteq> [] \<and> s \<in> lang False care_number"
    using extract_consumer_care_shape [of raw] e(4) by simp
  have 5: "(\<forall>s. manufacturer_name ?f = Some s \<longrightarrow>
            (\<exists>l\<in>set (lines_of raw). js_test manuf_re l \<and> s = label_stripped l))
       \<and> (\<forall>s. manufacturer_address ?f = Some s \<longrightarrow> s \<noteq> [] \<and> (\<exists>x\<in>set s. is_digit x \<or> x = ch CHR '',''))"
    using extract_manufacturer_shape [OF lines_nonempty, of raw] by simp
  have 6: "\<forall>s. generic_name ?f = Some s \<longrightarrow>
            (\<exists>l\<in>set (lines_of raw). js_test name_re l \<and> s = trim (label_stripped l))"
    using extract_generic_name_cases [of "lines_of raw"] by auto
  have 7: "generic_name ?f = None \<and> mrp ?f = None \<and> net_quantity ?f = None \<and> unit ?f = None
           \<and> manufacturer_name ?f = None \<and> manufacturer_address ?f = None
           \<and> month_year ?f = None \<and> consumer_care ?f = None"
    if n: "no_recognizable_patterns raw"
  proof -
    from n have t: "js_match raw mrp_re = None" "js_match raw qty_re = None"
      "js_match raw my_re = None" "js_match raw care_re = None"
      and l: "list_all (\<lambda>l. \<not> js_test manuf_re l \<and> \<not> js_test name_re l) (lines_of raw)"
      by (simp_all add: no_recognizable_patterns_def normalize_text_id js_test_def)
    from l have "find (js_test manuf_re) (lines_of raw) = None" "find (js_test name_re) (lines_of raw) = None"
      by (simp_all add: find_None_all list_all_iff)
    with extract_manufacturer_None [of "lines_of raw"]
    have "extract_manufacturer (lines_of raw) = (None, None)" "extract_generic_name (lines_of raw) = None"
      by (simp_all add: extract_generic_name_def truthy_def)
    with e extract_qty_None [OF t(2)] extract_mrp_None [OF t(1)]
      extract_month_year_None [OF t(3)] extract_consumer_care_None [OF t(4)]
    show ?thesis by simp
  qed
  from p 1 2 3 4 5 6 7 show ?thesis
    by (intro exI [of _ ?f]) (simp only: simp_thms OCRExtractedFields.simps, blast)
qed

theorem extracted_fields_shape_witness:
  "no_recognizable_patterns (asc ''fresh and tasty'')
   \<and> parseFieldsFromRawText (asc ''fresh and tasty'') = Inr (no_fields\<lparr>raw_text := Some (asc ''fresh and tasty'')\<rparr>)
   \<and> parseFieldsFromRawText example_label = Inr \<lparr>generic_name = None, mrp = Some (rupee # asc ''199.00''),
        net_quantity = Some (asc ''250''), unit = Some (asc ''g''),
        manufacturer_name = Some (asc ''250 g Mfg by: Acme Foods Ltd 12/2025 Consumer Care: 1800-123-4567''),
        manufacturer_address = None,
        month_year = Some (asc ''12/2025''),
        consumer_care = Some (asc ''1800-123-4567''),
        raw_text = Some example_label\<rparr>
   \<and> rupee # asc ''199.00'' \<in> lang True (pattern mrp_re) \<and> js_test numeric_re (asc ''250'')
   \<and> asc ''g'' \<in> set canonical_units \<and> asc ''1800-123-4567'' \<in> lang False care_number
   \<and> parseFieldsFromRawText name_and_address = Inr \<lparr>generic_name = Some (asc ''Green Tea''), mrp = None,
        net_quantity = None, unit = None, manufacturer_name = Some (asc ''Acme''),
        manufacturer_address = Some (asc ''12, Road''), month_year = None, consumer_care = None,
        raw_text = Some name_and_address\<rparr>
   \<and> (\<exists>x\<in>set (asc ''12, Road''). is_digit x \<or> x = ch CHR '','')"
proof -
  have e: "no_recognizable_patterns (asc ''fresh and tasty'')"
    "parseFieldsFromRawText (asc ''fresh and tasty'') = Inr (no_fields\<lparr>raw_text := Some (asc ''fresh and tasty'')\<rparr>)"
    "parseFieldsFromRawText example_label = Inr \<lparr>generic_name = None, mrp = Some (rupee # asc ''199.00''),
        net_quantity = Some (asc ''250''), unit = Some (asc ''g''),
        manufacturer_name = Some (asc ''250 g Mfg by: Acme Foods Ltd 12/2025 Consumer Care: 1800-123-4567''),
        manufacturer_address = None,
        month_year = Some (asc ''12/2025''),
        consumer_care = Some (asc ''1800-123-4567''),
        raw_text = Some example_label\<rparr>"
    "parseFieldsFromRawText name_and_address = Inr \<lparr>generic_name = Some (asc ''Green Tea''), mrp = None,
        net_quantity = None, unit = None, manufacturer_name = Some (asc ''Acme''),
        manufacturer_address = Some (asc ''12, Road''), month_year = None, consumer_care = None,
        raw_text = Some name_and_address\<rparr>"
    by code_simp+
  from extracted_fields_shape [of "asc ''fresh and tasty''"] extracted_fields_shape [of example_label]
    extracted_fields_shape [of name_and_address] e
  show ?thesis by auto
qed

end
